theory Spec2Isabelle
  imports Main "HOL-Library.Word" "HOL-Library.Monad_Syntax" "HOL-Library.AList"
begin

unbundle bit_operations_syntax

section \<open>Cursors\<close>

text \<open>
  A Go panic is the value \<open>None\<close> of the option monad: every function of the decoders
  returns \<open>Some\<close> of its result and of the decoder after the call, or \<open>None\<close> when it
  panics. The panics of the code are the short read of \<open>reserve\<close>
  (\<^verbatim>\<open>panic(io.ErrUnexpectedEOF)\<close>) and Go's runtime panics (a negative length, an index
  out of range, a nil pointer), each noted where it arises. Go's \<open>int\<close> is 64 bits wide:
  \<open>int(s)\<close> of a \<open>uint64\<close> is \<open>sint s\<close>.
\<close>

type_synonym byte = "8 word"

text \<open>The interface \<open>Endian\<close> (its implementations are not part of the decoders).\<close>

record Endian =
  Endian_Uint16 :: "byte list \<Rightarrow> 16 word"
  Endian_Uint32 :: "byte list \<Rightarrow> 32 word"
  Endian_Uint64 :: "byte list \<Rightarrow> 64 word"

text \<open>
  \<open>Decoder\<close>: the embedded \<open>coder\<close> (\<open>buff\<close>, \<open>pos\<close>, \<open>endian\<close>) and the optional
  \<open>reader\<close>. An \<open>io.Reader\<close> is the list of the bytes it has still to deliver, and
  \<open>Read\<close> delivers as many of them as are asked for. In reader mode \<open>buff\<close> only stages
  the bytes of one read (\<open>reserve\<close> returns \<open>buff[:size]\<close> right after \<open>Read\<close> has
  filled it), so the model returns the bytes read and leaves \<open>buff\<close> alone.
\<close>

record Decoder =
  buff :: "byte list"
  pos :: nat
  endian :: Endian
  reader :: "byte list option"

text \<open>\<open>decoderReader\<close>: the stream \<open>r\<close> and the byte order; its scratch \<open>buff\<close> is left
  out for the same reason.\<close>

record decoderReader =
  rd_r :: "byte list"
  rd_endian :: Endian

text \<open>
  Modelled from the spec: \<open>coder.reserve\<close> is not under src/. Section 4.1: reserve(n)
  "returns the next n bytes and advances position by n, or fails with EndOfData if fewer
  than n bytes are available". A negative size fails as well (Go panics on a negative
  slice bound).
\<close>

definition coder_reserve :: "Decoder \<Rightarrow> int \<Rightarrow> (byte list \<times> Decoder) option" where
  "coder_reserve this sz =
     (if sz < 0 \<or> int (length (buff this) - pos this) < sz then None
      else Some (take (nat sz) (drop (pos this) (buff this)),
                 this\<lparr>pos := pos this + nat sz\<rparr>))"

definition Decoder_reserve :: "Decoder \<Rightarrow> int \<Rightarrow> (byte list \<times> Decoder) option" where
  "Decoder_reserve this sz =
     (case reader this of
        Some r \<Rightarrow>
          (if sz < 0 then None
           else let n = min (nat sz) (length r) in
             if int n < sz then None
             else Some (take (nat sz) r, this\<lparr>reader := Some (drop (nat sz) r)\<rparr>))
      | None \<Rightarrow> coder_reserve this sz)"

definition decoderReader_reserve ::
  "decoderReader \<Rightarrow> int \<Rightarrow> (byte list \<times> decoderReader) option" where
  "decoderReader_reserve this sz =
     (if sz < 0 then None
      else let n = min (nat sz) (length (rd_r this)) in
        if int n < sz then None
        else Some (take (nat sz) (rd_r this), this\<lparr>rd_r := drop (nat sz) (rd_r this)\<rparr>))"

text \<open>\<open>Skip\<close>: \<open>reserve\<close> never returns nil when it returns, so \<open>Skip\<close> returns \<open>size\<close>.\<close>

definition Decoder_Skip :: "Decoder \<Rightarrow> int \<Rightarrow> (int \<times> Decoder) option" where
  "Decoder_Skip this sz = do { (b, this') \<leftarrow> Decoder_reserve this sz; Some (sz, this') }"

definition decoderReader_Skip :: "decoderReader \<Rightarrow> int \<Rightarrow> (int \<times> decoderReader) option" where
  "decoderReader_Skip this sz =
     do { (b, this') \<leftarrow> decoderReader_reserve this sz; Some (sz, this') }"

definition Decoder_Uint8 :: "Decoder \<Rightarrow> (byte \<times> Decoder) option" where
  "Decoder_Uint8 this = do { (b, this') \<leftarrow> Decoder_reserve this 1; Some (b ! 0, this') }"

definition decoderReader_Uint8 :: "decoderReader \<Rightarrow> (byte \<times> decoderReader) option" where
  "decoderReader_Uint8 this =
     do { (b, this') \<leftarrow> decoderReader_reserve this 1; Some (b ! 0, this') }"

section \<open>Varint codec\<close>

text \<open>Modelled from the spec: the constant \<open>MaxVarintLen64\<close> is not under src/; a varint
  "encodes with at most 10 bytes" (section 3).\<close>

definition MaxVarintLen64 :: int where
  "MaxVarintLen64 = 10"

function Decoder_Uvarint_loop ::
  "int \<Rightarrow> 64 word \<Rightarrow> nat \<Rightarrow> Decoder \<Rightarrow> ((64 word \<times> int) \<times> Decoder) option" where
  "Decoder_Uvarint_loop i x s this =
     (if i < MaxVarintLen64 then
        do { (b, this') \<leftarrow> Decoder_Uint8 this;
             let x' = x OR push_bit s (ucast (b AND 0x7f));
             if b < 0x80 then
               (if i > 9 \<or> i = 9 \<and> b > 1 then Some ((0, - (i + 1)), this')
                else Some ((x', i + 1), this'))
             else Decoder_Uvarint_loop (i + 1) x' (s + 7) this' }
      else Some ((0, 0), this))"
  by pat_completeness auto
termination
  by (relation "measure (\<lambda>(i, x, s, this). nat (MaxVarintLen64 - i))") auto

definition Decoder_Uvarint :: "Decoder \<Rightarrow> ((64 word \<times> int) \<times> Decoder) option" where
  "Decoder_Uvarint this = Decoder_Uvarint_loop 0 0 0 this"

function decoderReader_Uvarint_loop ::
  "int \<Rightarrow> 64 word \<Rightarrow> nat \<Rightarrow> decoderReader \<Rightarrow> ((64 word \<times> int) \<times> decoderReader) option" where
  "decoderReader_Uvarint_loop i x s this =
     (if i < MaxVarintLen64 then
        do { (b, this') \<leftarrow> decoderReader_Uint8 this;
             if b < 0x80 then
               (if i > 9 \<or> i = 9 \<and> b > 1 then Some ((0, - (i + 1)), this')
                else Some ((x OR push_bit s (ucast b), i + 1), this'))
             else decoderReader_Uvarint_loop (i + 1)
                    (x OR push_bit s (ucast (b AND 0x7f))) (s + 7) this' }
      else Some ((0, 0), this))"
  by pat_completeness auto
termination
  by (relation "measure (\<lambda>(i, x, s, this). nat (MaxVarintLen64 - i))") auto

definition decoderReader_Uvarint ::
  "decoderReader \<Rightarrow> ((64 word \<times> int) \<times> decoderReader) option" where
  "decoderReader_Uvarint this = decoderReader_Uvarint_loop 0 0 0 this"

text \<open>
  Modelled from the spec: the encoder is not under src/. The minimal varint encoding of
  an unsigned 64-bit value (glossary: "7 payload bits + 1 continuation bit per byte,
  least-significant group first"; section 8: "no redundant continuation bytes").
\<close>

function PutUvarint :: "64 word \<Rightarrow> byte list" where
  "PutUvarint x =
     (if x < 0x80 then [ucast x] else (ucast x OR 0x80) # PutUvarint (drop_bit 7 x))"
  by pat_completeness auto
termination
proof (relation "measure unat")
  show "wf (measure (unat :: 64 word \<Rightarrow> nat))" by simp
next
  fix x :: "64 word"
  assume "\<not> x < 0x80"
  then have "128 \<le> unat x"
    by (simp add: word_less_nat_alt)
  then have "unat x div 128 < unat x"
    by simp
  then show "(drop_bit 7 x, x) \<in> measure unat"
    by (simp add: drop_bit_eq_div unat_div)
qed


section \<open>What a decoder has still to read\<close>

text \<open>
  The bytes a decoder has not consumed yet, and the decoder after \<open>n\<close> more bytes have
  been consumed. Both backends of \<open>Decoder\<close> and \<open>decoderReader\<close> are described by them.
\<close>

definition Decoder_rest :: "Decoder \<Rightarrow> byte list" where
  "Decoder_rest this = (case reader this of Some r \<Rightarrow> r | None \<Rightarrow> drop (pos this) (buff this))"

definition Decoder_advance :: "Decoder \<Rightarrow> nat \<Rightarrow> Decoder" where
  "Decoder_advance this n =
     (case reader this of
        Some r \<Rightarrow> this\<lparr>reader := Some (drop n r)\<rparr>
      | None \<Rightarrow> this\<lparr>pos := pos this + n\<rparr>)"

definition decoderReader_advance :: "decoderReader \<Rightarrow> nat \<Rightarrow> decoderReader" where
  "decoderReader_advance this n = this\<lparr>rd_r := drop n (rd_r this)\<rparr>"

text \<open>Modelled from the spec: the byte-order primitives are not under src/ ("reading a
  2/4/8-byte group as big- or little-endian", section 1). The little-endian order, for
  the concrete decoders of the examples.\<close>

definition LittleEndian :: Endian where
  "LittleEndian =
     \<lparr>Endian_Uint16 = (\<lambda>b. word_rcat (rev (take 2 b))),
      Endian_Uint32 = (\<lambda>b. word_rcat (rev (take 4 b))),
      Endian_Uint64 = (\<lambda>b. word_rcat (rev (take 8 b)))\<rparr>"

definition NewDecoderEndian :: "byte list \<Rightarrow> Endian \<Rightarrow> Decoder" where
  "NewDecoderEndian buffer e = \<lparr>buff = buffer, pos = 0, endian = e, reader = None\<rparr>"


section \<open>Comparing the two decoders\<close>

text \<open>\<open>sim d r\<close>: the buffer- or reader-backed \<open>Decoder\<close> \<open>d\<close> and the \<open>decoderReader\<close>
  \<open>r\<close> have the same bytes to read, in the same byte order. \<open>same_read d r x y\<close>: the
  outcomes \<open>x\<close> (of \<open>d\<close>) and \<open>y\<close> (of \<open>r\<close>) are both a panic, or both the same result
  after the same number of bytes.\<close>

definition sim :: "Decoder \<Rightarrow> decoderReader \<Rightarrow> bool" where
  "sim d r \<longleftrightarrow> Decoder_rest d = rd_r r \<and> endian d = rd_endian r"

definition same_read ::
  "Decoder \<Rightarrow> decoderReader \<Rightarrow> ('a \<times> Decoder) option \<Rightarrow> ('a \<times> decoderReader) option \<Rightarrow> bool"
  where
  "same_read d r x y =
     (case x of
        None \<Rightarrow> y = None
      | Some (a, d') \<Rightarrow>
          (\<exists>n\<le>length (Decoder_rest d).
             d' = Decoder_advance d n \<and> y = Some (a, decoderReader_advance r n)))"


text \<open>The buffer-backed \<open>Decoder\<close> over the bytes a \<open>decoderReader\<close> has still to read.\<close>

definition as_Decoder :: "decoderReader \<Rightarrow> Decoder" where
  "as_Decoder r = \<lparr>buff = rd_r r, pos = 0, endian = rd_endian r, reader = None\<rparr>"

definition NewDecoderReader :: "byte list \<Rightarrow> Endian \<Rightarrow> decoderReader" where
  "NewDecoderReader stream e = \<lparr>rd_r = stream, rd_endian = e\<rparr>"


section \<open>Shapes and destinations\<close>

text \<open>
  \<open>reflect.Type\<close>, by kind. The kinds the decoders have no case for (\<open>Uintptr\<close>, \<open>Chan\<close>,
  \<open>Func\<close>, \<open>Interface\<close>, \<open>UnsafePointer\<close>) are \<open>TOther\<close>. A struct type lists its fields in
  declaration order, each with the answer of \<open>validField\<close> for it and its type
  (\<open>validField\<close> is not under src/; it is a function of the field descriptor).
\<close>

datatype ty =
    TBool | TInt | TInt8 | TInt16 | TInt32 | TInt64
  | TUint | TUint8 | TUint16 | TUint32 | TUint64
  | TFloat32 | TFloat64 | TComplex64 | TComplex128
  | TString
  | TSlice ty
  | TArray nat ty
  | TMap ty ty
  | TStruct "(bool \<times> ty) list"
  | TPtr ty
  | TOther

text \<open>
  The content of a destination (\<open>reflect.Value\<close> is a type and its content). Integers
  are their bits (\<open>int8(x)\<close> of a \<open>uint8\<close> keeps them), floats their IEEE bits
  (\<open>math.Float32frombits\<close>), a complex number its real and imaginary part, a string
  its bytes. A slice is the list of its elements: a nil slice and an empty slice are
  both \<open>VSlice []\<close>, and nothing below tells them apart. A map is the list of its
  entries, a pointer is nil (\<open>None\<close>) or has a pointee.
\<close>

datatype val =
    VBool bool
  | VInt "64 word" | VInt8 "8 word" | VInt16 "16 word" | VInt32 "32 word" | VInt64 "64 word"
  | VUint "64 word" | VUint8 "8 word" | VUint16 "16 word" | VUint32 "32 word" | VUint64 "64 word"
  | VFloat32 "32 word" | VFloat64 "64 word"
  | VComplex64 "32 word" "32 word" | VComplex128 "64 word" "64 word"
  | VString "byte list"
  | VSlice "val list"
  | VArray "val list"
  | VMap "(val \<times> val) list"
  | VStruct "val list"
  | VPtr "val option"
  | VOther

datatype error = ErrUnexpectedEOF | UnsupportedType | NonPointer

text \<open>The zero value of a type: \<open>reflect.New(t).Elem()\<close>, an element of \<open>reflect.MakeSlice\<close>.\<close>

fun zero :: "ty \<Rightarrow> val" where
  "zero TBool = VBool False"
| "zero TInt = VInt 0"
| "zero TInt8 = VInt8 0"
| "zero TInt16 = VInt16 0"
| "zero TInt32 = VInt32 0"
| "zero TInt64 = VInt64 0"
| "zero TUint = VUint 0"
| "zero TUint8 = VUint8 0"
| "zero TUint16 = VUint16 0"
| "zero TUint32 = VUint32 0"
| "zero TUint64 = VUint64 0"
| "zero TFloat32 = VFloat32 0"
| "zero TFloat64 = VFloat64 0"
| "zero TComplex64 = VComplex64 0 0"
| "zero TComplex128 = VComplex128 0 0"
| "zero TString = VString []"
| "zero (TSlice e) = VSlice []"
| "zero (TArray n e) = VArray (replicate n (zero e))"
| "zero (TMap k e) = VMap []"
| "zero (TStruct fs) = VStruct (map (\<lambda>(valid, t). zero t) fs)"
| "zero (TPtr e) = VPtr None"
| "zero TOther = VOther"

text \<open>\<open>has_type t v\<close>: \<open>v\<close> is a content of a destination of type \<open>t\<close>.\<close>

fun has_type :: "ty \<Rightarrow> val \<Rightarrow> bool" where
  "has_type TBool v = (case v of VBool b \<Rightarrow> True | _ \<Rightarrow> False)"
| "has_type TInt v = (case v of VInt w \<Rightarrow> True | _ \<Rightarrow> False)"
| "has_type TInt8 v = (case v of VInt8 w \<Rightarrow> True | _ \<Rightarrow> False)"
| "has_type TInt16 v = (case v of VInt16 w \<Rightarrow> True | _ \<Rightarrow> False)"
| "has_type TInt32 v = (case v of VInt32 w \<Rightarrow> True | _ \<Rightarrow> False)"
| "has_type TInt64 v = (case v of VInt64 w \<Rightarrow> True | _ \<Rightarrow> False)"
| "has_type TUint v = (case v of VUint w \<Rightarrow> True | _ \<Rightarrow> False)"
| "has_type TUint8 v = (case v of VUint8 w \<Rightarrow> True | _ \<Rightarrow> False)"
| "has_type TUint16 v = (case v of VUint16 w \<Rightarrow> True | _ \<Rightarrow> False)"
| "has_type TUint32 v = (case v of VUint32 w \<Rightarrow> True | _ \<Rightarrow> False)"
| "has_type TUint64 v = (case v of VUint64 w \<Rightarrow> True | _ \<Rightarrow> False)"
| "has_type TFloat32 v = (case v of VFloat32 w \<Rightarrow> True | _ \<Rightarrow> False)"
| "has_type TFloat64 v = (case v of VFloat64 w \<Rightarrow> True | _ \<Rightarrow> False)"
| "has_type TComplex64 v = (case v of VComplex64 re im \<Rightarrow> True | _ \<Rightarrow> False)"
| "has_type TComplex128 v = (case v of VComplex128 re im \<Rightarrow> True | _ \<Rightarrow> False)"
| "has_type TString v = (case v of VString s \<Rightarrow> True | _ \<Rightarrow> False)"
| "has_type (TSlice e) v = (case v of VSlice xs \<Rightarrow> list_all (has_type e) xs | _ \<Rightarrow> False)"
| "has_type (TArray n e) v =
     (case v of VArray xs \<Rightarrow> length xs = n \<and> list_all (has_type e) xs | _ \<Rightarrow> False)"
| "has_type (TMap k e) v =
     (case v of VMap m \<Rightarrow> list_all (\<lambda>(x, y). has_type k x \<and> has_type e y) m | _ \<Rightarrow> False)"
| "has_type (TStruct fs) v =
     (case v of VStruct xs \<Rightarrow> list_all2 (\<lambda>(valid, t) x. has_type t x) fs xs | _ \<Rightarrow> False)"
| "has_type (TPtr e) v =
     (case v of VPtr None \<Rightarrow> True | VPtr (Some x) \<Rightarrow> has_type e x | _ \<Rightarrow> False)"
| "has_type TOther v = (case v of VOther \<Rightarrow> True | _ \<Rightarrow> False)"

text \<open>Go's \<open>int\<close> arithmetic wraps around at 64 bits.\<close>

definition int64 :: "int \<Rightarrow> int" where
  "int64 x = sint (word_of_int x :: 64 word)"

text \<open>
  Modelled from the spec: \<open>_fixTypeSize\<close> is not under src/. Section 4.6: "For shapes
  with a statically fixed wire size (bool, fixed-width scalar kinds), the size is looked
  up"; the sizes are those of the wire format (section 6). Any other shape has none (-1).
\<close>

fun fixTypeSize :: "ty \<Rightarrow> int" where
  "fixTypeSize TBool = 1"
| "fixTypeSize TInt8 = 1"
| "fixTypeSize TUint8 = 1"
| "fixTypeSize TInt16 = 2"
| "fixTypeSize TUint16 = 2"
| "fixTypeSize TInt32 = 4"
| "fixTypeSize TUint32 = 4"
| "fixTypeSize TFloat32 = 4"
| "fixTypeSize TInt64 = 8"
| "fixTypeSize TUint64 = 8"
| "fixTypeSize TFloat64 = 8"
| "fixTypeSize TComplex64 = 8"
| "fixTypeSize TComplex128 = 16"
| "fixTypeSize t = - 1"

text \<open>
  Modelled from the spec: \<open>SizeofUvarint\<close> and \<open>sizeofBoolArray\<close> are not under src/.
  Section 4.6: the size of a bool sequence is "ceil(count/8) plus the already-consumed
  uvarint prefix length"; the prefix of a count is its minimal varint encoding.
\<close>

definition SizeofUvarint :: "64 word \<Rightarrow> int" where
  "SizeofUvarint x = int (length (PutUvarint x))"

definition sizeofBoolArray :: "int \<Rightarrow> int" where
  "sizeofBoolArray l = SizeofUvarint (word_of_int l) + (l + 7) div 8"

text \<open>
  The collaborators that are not under src/ and that the spec does not define: the
  signed transform \<open>ToVarint\<close> (section 9: "defined in a companion component not reviewed
  here") and the package-level \<open>newPtr\<close> that \<open>Decoder.value\<close> calls. \<open>newPtr t v\<close>
  answers whether it accepts the destination, and the destination after it.
\<close>

record pkg =
  ToVarint :: "64 word \<Rightarrow> 64 word"
  newPtr :: "ty \<Rightarrow> val \<Rightarrow> bool \<times> val"

section \<open>The loops of both decoders\<close>

text \<open>
  The loops below read the same in \<^verbatim>\<open>decoder.go\<close> and \<^verbatim>\<open>decoder_reader.go\<close>; they are written
  once, over the decoder state \<open>'s\<close> and the calls of the loop body.
\<close>

text \<open>\<open>v.Index(i)\<close>, \<open>v.Len()\<close> of a slice or array, and storing its elements back.\<close>

definition elems :: "val \<Rightarrow> val list option" where
  "elems v = (case v of VSlice xs \<Rightarrow> Some xs | VArray xs \<Rightarrow> Some xs | _ \<Rightarrow> None)"

definition with_elems :: "val \<Rightarrow> val list \<Rightarrow> val" where
  "with_elems v ys = (case v of VSlice xs \<Rightarrow> VSlice ys | VArray xs \<Rightarrow> VArray ys | _ \<Rightarrow> v)"

definition isSlice :: "ty \<Rightarrow> bool" where
  "isSlice t = (case t of TSlice e \<Rightarrow> True | _ \<Rightarrow> False)"

text \<open>\<open>k == reflect.Slice || k == reflect.Array\<close> and
  \<open>v.Type().Elem().Kind() == reflect.Bool\<close>.\<close>

definition isBoolSeq :: "ty \<Rightarrow> bool" where
  "isBoolSeq t = (case t of TSlice e \<Rightarrow> e = TBool | TArray n e \<Rightarrow> e = TBool | _ \<Rightarrow> False)"

text \<open>\<open>*d = x\<close>: a nil pointer panics.\<close>

definition assign :: "val \<Rightarrow> val \<Rightarrow> val option" where
  "assign d x = (case d of VPtr (Some old) \<Rightarrow> Some (VPtr (Some x)) | _ \<Rightarrow> None)"

text \<open>
  The loop of \<open>boolArray\<close> and of the \<open>*[]bool\<close> case of \<open>fastValue\<close>:
  \<^verbatim>\<open>for i := 0; i < l; i++ { _, bit := i/8, i%8; mask := byte(1 << uint(bit));
    if bit == 0 { b = this.reserve(1) }; x := ((b[0] & mask) != 0); v.Index(i).SetBool(x) }\<close>
  \<open>v.Index(i)\<close> panics beyond the length of an array.
\<close>

function bool_loop ::
  "('s \<Rightarrow> int \<Rightarrow> (byte list \<times> 's) option) \<Rightarrow> nat \<Rightarrow> nat \<Rightarrow> byte list \<Rightarrow> val list \<Rightarrow> 's \<Rightarrow>
     (val list \<times> 's) option" where
  "bool_loop reserve i l b xs this =
     (if i < l then
        let bit = i mod 8; mask = (push_bit bit 1 :: byte) in
        do { (b', this') \<leftarrow> (if bit = 0 then reserve this 1 else Some (b, this));
             if i < length xs
             then bool_loop reserve (i + 1) l b' (xs[i := VBool (b' ! 0 AND mask \<noteq> 0)]) this'
             else None }
      else Some (xs, this))"
  by pat_completeness auto
termination
  by (relation "measure (\<lambda>(reserve, i, l, b, xs, this). l - i)") auto

text \<open>
  The loop of case \<open>reflect.Slice, reflect.Array\<close> of \<open>value\<close>:
  \<^verbatim>\<open>for i := 0; i < size; i++ { if i < l { this.value(v.Index(i)) } else {
    this.skipByType(v.Type().Elem()) } }\<close>
  The results of both calls are dropped.
\<close>

function elems_loop ::
  "(val \<Rightarrow> 's \<Rightarrow> (('e \<times> val) \<times> 's) option) \<Rightarrow> ('s \<Rightarrow> (int \<times> 's) option) \<Rightarrow>
     nat \<Rightarrow> nat \<Rightarrow> val list \<Rightarrow> 's \<Rightarrow> (val list \<times> 's) option" where
  "elems_loop f g i sz xs this =
     (if i < sz then
        (if i < length xs
         then do { ((err, x'), this') \<leftarrow> f (xs ! i) this;
                   elems_loop f g (i + 1) sz (xs[i := x']) this' }
         else do { (n, this') \<leftarrow> g this; elems_loop f g (i + 1) sz xs this' })
      else Some (xs, this))"
  by pat_completeness auto
termination
  by (relation "measure (\<lambda>(f, g, i, sz, xs, this). sz - i)") auto

text \<open>
  The loop of case \<open>reflect.Map\<close> of \<open>value\<close>; \<open>fk\<close> and \<open>fv\<close> decode into a fresh key
  and a fresh value, \<open>v.SetMapIndex(key, value)\<close> replaces the entry of an equal key.
\<close>

fun map_loop ::
  "('s \<Rightarrow> (('e \<times> val) \<times> 's) option) \<Rightarrow> ('s \<Rightarrow> (('e \<times> val) \<times> 's) option) \<Rightarrow>
     nat \<Rightarrow> (val \<times> val) list \<Rightarrow> 's \<Rightarrow> ((val \<times> val) list \<times> 's) option" where
  "map_loop fk fv 0 m this = Some (m, this)"
| "map_loop fk fv (Suc n) m this =
     do { ((ek, key), this1) \<leftarrow> fk this;
          ((ev, val), this2) \<leftarrow> fv this1;
          map_loop fk fv n (AList.update key val m) this2 }"

text \<open>
  The loop of case \<open>reflect.Struct\<close> of \<open>value\<close>, over the fields: whether the field is
  valid, and the call that decodes into it.
\<close>

fun struct_loop ::
  "(bool \<times> (val \<Rightarrow> 's \<Rightarrow> (('e \<times> val) \<times> 's) option)) list \<Rightarrow> nat \<Rightarrow> val list \<Rightarrow> 's \<Rightarrow>
     (val list \<times> 's) option" where
  "struct_loop [] i xs this = Some (xs, this)"
| "struct_loop ((valid, f) # fs) i xs this =
     (if i < length xs then
        (if valid
         then do { ((err, x'), this') \<leftarrow> f (xs ! i) this;
                   struct_loop fs (i + 1) (xs[i := x']) this' }
         else struct_loop fs (i + 1) xs this)
      else None)"

text \<open>The loops of the slice cases of \<open>fastValue\<close>:
  \<^verbatim>\<open>for i := 0; i < l; i++ { (*d)[i] = this.Int8() }\<close>\<close>

function fast_loop ::
  "('s \<Rightarrow> (val \<times> 's) option) \<Rightarrow> nat \<Rightarrow> nat \<Rightarrow> val list \<Rightarrow> 's \<Rightarrow> (val list \<times> 's) option" where
  "fast_loop rd i l xs this =
     (if i < l then do { (y, this') \<leftarrow> rd this; fast_loop rd (i + 1) l (xs[i := y]) this' }
      else Some (xs, this))"
  by pat_completeness auto
termination
  by (relation "measure (\<lambda>(rd, i, l, xs, this). l - i)") auto

text \<open>
  The loops of \<open>skipByType\<close>. Slice or array of elements without a fixed size:
  \<^verbatim>\<open>for i, n := 0, cnt; i < n; i++ { s := this.skipByType(e); if s < 0 { return -1 }; sum += s }\<close>
\<close>

fun skip_loop :: "('s \<Rightarrow> (int \<times> 's) option) \<Rightarrow> nat \<Rightarrow> int \<Rightarrow> 's \<Rightarrow> (int \<times> 's) option" where
  "skip_loop f 0 sm this = Some (sm, this)"
| "skip_loop f (Suc n) sm this =
     do { (s, this') \<leftarrow> f this;
          if s < 0 then Some (- 1, this') else skip_loop f n (sm + s) this' }"

text \<open>Map:
  \<^verbatim>\<open>for i, n := 0, cnt; i < n; i++ { sum += this.skipByType(kt); sum += this.skipByType(vt) }\<close>\<close>

fun skip_map_loop ::
  "('s \<Rightarrow> (int \<times> 's) option) \<Rightarrow> ('s \<Rightarrow> (int \<times> 's) option) \<Rightarrow> nat \<Rightarrow> int \<Rightarrow> 's \<Rightarrow>
     (int \<times> 's) option" where
  "skip_map_loop fk fv 0 sm this = Some (sm, this)"
| "skip_map_loop fk fv (Suc n) sm this =
     do { (sk, this1) \<leftarrow> fk this;
          (sv, this2) \<leftarrow> fv this1;
          skip_map_loop fk fv n (sm + sk + sv) this2 }"

text \<open>Struct, over the calls that skip each field:
  \<^verbatim>\<open>for i, n := 0, t.NumField(); i < n; i++ { s := this.skipByType(t.Field(i).Type);
    if s < 0 { return -1 }; sum += s }\<close>\<close>

fun skip_fields :: "('s \<Rightarrow> (int \<times> 's) option) list \<Rightarrow> int \<Rightarrow> 's \<Rightarrow> (int \<times> 's) option" where
  "skip_fields [] sm this = Some (sm, this)"
| "skip_fields (f # fs) sm this =
     do { (s, this') \<leftarrow> f this;
          if s < 0 then Some (- 1, this') else skip_fields fs (sm + s) this' }"

section \<open>Decoder\<close>

definition Decoder_Bool :: "Decoder \<Rightarrow> (bool \<times> Decoder) option" where
  "Decoder_Bool this = do { (b, this') \<leftarrow> Decoder_reserve this 1; Some (b ! 0 \<noteq> 0, this') }"

definition Decoder_Int8 :: "Decoder \<Rightarrow> (8 word \<times> Decoder) option" where
  "Decoder_Int8 this = Decoder_Uint8 this"

definition Decoder_Uint16 :: "Decoder \<Rightarrow> (16 word \<times> Decoder) option" where
  "Decoder_Uint16 this =
     do { (b, this') \<leftarrow> Decoder_reserve this 2; Some (Endian_Uint16 (endian this) b, this') }"

definition Decoder_Int16 :: "Decoder \<Rightarrow> (16 word \<times> Decoder) option" where
  "Decoder_Int16 this = Decoder_Uint16 this"

definition Decoder_Uint32 :: "Decoder \<Rightarrow> (32 word \<times> Decoder) option" where
  "Decoder_Uint32 this =
     do { (b, this') \<leftarrow> Decoder_reserve this 4; Some (Endian_Uint32 (endian this) b, this') }"

definition Decoder_Int32 :: "Decoder \<Rightarrow> (32 word \<times> Decoder) option" where
  "Decoder_Int32 this = Decoder_Uint32 this"

definition Decoder_Uint64 :: "Decoder \<Rightarrow> (64 word \<times> Decoder) option" where
  "Decoder_Uint64 this =
     do { (b, this') \<leftarrow> Decoder_reserve this 8; Some (Endian_Uint64 (endian this) b, this') }"

definition Decoder_Int64 :: "Decoder \<Rightarrow> (64 word \<times> Decoder) option" where
  "Decoder_Int64 this = Decoder_Uint64 this"

definition Decoder_Float32 :: "Decoder \<Rightarrow> (32 word \<times> Decoder) option" where
  "Decoder_Float32 this = Decoder_Uint32 this"

definition Decoder_Float64 :: "Decoder \<Rightarrow> (64 word \<times> Decoder) option" where
  "Decoder_Float64 this = Decoder_Uint64 this"

definition Decoder_Complex64 :: "Decoder \<Rightarrow> ((32 word \<times> 32 word) \<times> Decoder) option" where
  "Decoder_Complex64 this =
     do { (re, this1) \<leftarrow> Decoder_Float32 this;
          (im, this2) \<leftarrow> Decoder_Float32 this1;
          Some ((re, im), this2) }"

definition Decoder_Complex128 :: "Decoder \<Rightarrow> ((64 word \<times> 64 word) \<times> Decoder) option" where
  "Decoder_Complex128 this =
     do { (re, this1) \<leftarrow> Decoder_Float64 this;
          (im, this2) \<leftarrow> Decoder_Float64 this1;
          Some ((re, im), this2) }"

definition Decoder_String :: "Decoder \<Rightarrow> (byte list \<times> Decoder) option" where
  "Decoder_String this =
     do { ((s, n), this1) \<leftarrow> Decoder_Uvarint this;
          let sz = sint s;
          (b, this2) \<leftarrow> Decoder_reserve this1 sz;
          Some (b, this2) }"

definition Decoder_Varint :: "pkg \<Rightarrow> Decoder \<Rightarrow> ((64 word \<times> int) \<times> Decoder) option" where
  "Decoder_Varint P this =
     do { ((ux, n), this') \<leftarrow> Decoder_Uvarint this; Some ((ToVarint P ux, n), this') }"

definition Decoder_Int :: "pkg \<Rightarrow> Decoder \<Rightarrow> (64 word \<times> Decoder) option" where
  "Decoder_Int P this = do { ((n, k), this') \<leftarrow> Decoder_Varint P this; Some (n, this') }"

definition Decoder_Uint :: "Decoder \<Rightarrow> (64 word \<times> Decoder) option" where
  "Decoder_Uint this = do { ((n, k), this') \<leftarrow> Decoder_Uvarint this; Some (n, this') }"

subsection \<open>boolArray\<close>

text \<open>\<open>boolArray\<close> returns \<open>-1\<close> and leaves the destination alone unless it is a slice or
  an array of bool (\<open>isBoolSeq\<close>). \<open>isSlice t \<and> l > 0\<close> is the guard of "make a new slice".\<close>

definition Decoder_boolArray :: "ty \<Rightarrow> val \<Rightarrow> Decoder \<Rightarrow> ((int \<times> val) \<times> Decoder) option" where
  "Decoder_boolArray t v this =
     (if isBoolSeq t then
        do { ((l', k), this1) \<leftarrow> Decoder_Uvarint this;
             let l = sint l';
             xs \<leftarrow> elems v;
             let xs' = (if isSlice t \<and> l > 0 then replicate (nat l) (VBool False) else xs);
             (ys, this2) \<leftarrow> bool_loop Decoder_reserve 0 (nat l) [] xs' this1;
             Some ((sizeofBoolArray l, with_elems v ys), this2) }
      else Some ((- 1, v), this))"

subsection \<open>skipByType\<close>

text \<open>The body of case \<open>reflect.Slice, reflect.Array\<close>, for the element type \<open>e\<close>;
  \<open>f\<close> is \<open>this.skipByType(e)\<close>.\<close>

definition Decoder_skip_sequence ::
  "ty \<Rightarrow> (Decoder \<Rightarrow> (int \<times> Decoder) option) \<Rightarrow> Decoder \<Rightarrow> (int \<times> Decoder) option" where
  "Decoder_skip_sequence e f this =
     do { ((s, sLen), this1) \<leftarrow> Decoder_Uvarint this;
          let cnt = sint s;
          if fixTypeSize e > 0 then
            (if e = TBool then
               let totalSize = sizeofBoolArray cnt;
                   sz = totalSize - SizeofUvarint (word_of_int cnt)
               in do { (n, this2) \<leftarrow> Decoder_Skip this1 sz; Some (totalSize, this2) }
             else
               let sz = int64 (cnt * fixTypeSize e)
               in do { (n, this2) \<leftarrow> Decoder_Skip this1 sz; Some (sz, this2) })
          else skip_loop f (nat cnt) sLen this1 }"

fun Decoder_skipByType :: "pkg \<Rightarrow> ty \<Rightarrow> Decoder \<Rightarrow> (int \<times> Decoder) option" where
  "Decoder_skipByType P t this =
     (if fixTypeSize t > 0 then
        do { (n, this') \<leftarrow> Decoder_Skip this (fixTypeSize t); Some (fixTypeSize t, this') }
      else
        (case t of
           TInt \<Rightarrow> do { ((x, n), this') \<leftarrow> Decoder_Varint P this; Some (n, this') }
         | TUint \<Rightarrow> do { ((x, n), this') \<leftarrow> Decoder_Uvarint this; Some (n, this') }
         | TString \<Rightarrow>
             do { ((s, n), this1) \<leftarrow> Decoder_Uvarint this;
                  let sz = sint s;
                  (k, this2) \<leftarrow> Decoder_Skip this1 sz;
                  Some (sz + n, this2) }
         | TSlice e \<Rightarrow> Decoder_skip_sequence e (\<lambda>d. Decoder_skipByType P e d) this
         | TArray n e \<Rightarrow> Decoder_skip_sequence e (\<lambda>d. Decoder_skipByType P e d) this
         | TMap kt vt \<Rightarrow>
             do { ((s, sLen), this1) \<leftarrow> Decoder_Uvarint this;
                  let cnt = sint s;
                  skip_map_loop (\<lambda>d. Decoder_skipByType P kt d) (\<lambda>d. Decoder_skipByType P vt d)
                    (nat cnt) sLen this1 }
         | TStruct fs \<Rightarrow>
             skip_fields (map (\<lambda>(valid, ft). (\<lambda>d. Decoder_skipByType P ft d)) fs) 0 this
         | _ \<Rightarrow> Some (- 1, this)))"

subsection \<open>value\<close>

text \<open>The body of case \<open>reflect.Slice, reflect.Array\<close>, for a destination of type \<open>t\<close>
  with elements of type \<open>e\<close>; \<open>f\<close> is \<open>this.value\<close> on an element and \<open>g\<close> is
  \<open>this.skipByType(e)\<close>. \<open>reflect.MakeSlice\<close> panics on a negative length.\<close>

definition Decoder_sequence ::
  "ty \<Rightarrow> ty \<Rightarrow> (val \<Rightarrow> Decoder \<Rightarrow> ((error option \<times> val) \<times> Decoder) option) \<Rightarrow>
     (Decoder \<Rightarrow> (int \<times> Decoder) option) \<Rightarrow> val \<Rightarrow> Decoder \<Rightarrow>
     ((error option \<times> val) \<times> Decoder) option" where
  "Decoder_sequence t e f g v this =
     do { ((r, v1), this1) \<leftarrow> Decoder_boolArray t v this;
          if r < 0 then
            do { ((s, k), this2) \<leftarrow> Decoder_Uvarint this1;
                 let sz = sint s;
                 v2 \<leftarrow> (if isSlice t
                        then (if sz < 0 then None else Some (VSlice (replicate (nat sz) (zero e))))
                        else Some v1);
                 xs \<leftarrow> elems v2;
                 (ys, this3) \<leftarrow> elems_loop f g 0 (nat sz) xs this2;
                 Some ((None, with_elems v2 ys), this3) }
          else Some ((None, v1), this1) }"

text \<open>The default case of \<open>value\<close>: \<open>ok\<close> and \<open>v'\<close> are what \<open>newPtr(v)\<close> answers, \<open>f\<close> is
  \<open>this.value\<close> on the pointee. \<open>v.Elem()\<close> of anything but a non-nil pointer panics
  here or in the call that follows.\<close>

definition value_default ::
  "bool \<times> val \<Rightarrow> (val \<Rightarrow> 's \<Rightarrow> ((error option \<times> val) \<times> 's) option) \<Rightarrow> val \<Rightarrow> 's \<Rightarrow>
     ((error option \<times> val) \<times> 's) option" where
  "value_default np f v this =
     (case np of
        (True, v') \<Rightarrow>
          (case v' of
             VPtr (Some x) \<Rightarrow>
               do { ((err, x'), this') \<leftarrow> f x this; Some ((err, VPtr (Some x')), this') }
           | _ \<Rightarrow> None)
      | (False, v') \<Rightarrow> Some ((Some UnsupportedType, v), this))"

text \<open>
  \<open>float32(float64(x))\<close> on the bits of \<open>x\<close>: \<open>value\<close> widens a \<open>float32\<close> to \<open>float64\<close>
  (\<open>float64(this.Float32())\<close>, \<open>complex128(this.Complex64())\<close>) and \<open>SetFloat\<close>, \<open>SetComplex\<close>
  narrow it back to the kind of the destination. The round trip is exact for every number
  and for the infinities; a NaN comes back quiet, with bit 22 (the top bit of the
  significand) set and the rest of its bits as they were, which is what the conversion
  instructions of amd64 and arm64 deliver.
\<close>

definition via_float64 :: "32 word \<Rightarrow> 32 word" where
  "via_float64 w =
     (if w AND 0x7F800000 = 0x7F800000 \<and> w AND 0x007FFFFF \<noteq> 0 then w OR 0x00400000 else w)"

fun Decoder_value ::
  "pkg \<Rightarrow> ty \<Rightarrow> val \<Rightarrow> Decoder \<Rightarrow> ((error option \<times> val) \<times> Decoder) option" where
  "Decoder_value P TInt v this =
     do { (x, this') \<leftarrow> Decoder_Int P this; Some ((None, VInt x), this') }"
| "Decoder_value P TUint v this =
     do { (x, this') \<leftarrow> Decoder_Uint this; Some ((None, VUint x), this') }"
| "Decoder_value P TBool v this =
     do { (x, this') \<leftarrow> Decoder_Bool this; Some ((None, VBool x), this') }"
| "Decoder_value P TInt8 v this =
     do { (x, this') \<leftarrow> Decoder_Int8 this; Some ((None, VInt8 x), this') }"
| "Decoder_value P TInt16 v this =
     do { (x, this') \<leftarrow> Decoder_Int16 this; Some ((None, VInt16 x), this') }"
| "Decoder_value P TInt32 v this =
     do { (x, this') \<leftarrow> Decoder_Int32 this; Some ((None, VInt32 x), this') }"
| "Decoder_value P TInt64 v this =
     do { (x, this') \<leftarrow> Decoder_Int64 this; Some ((None, VInt64 x), this') }"
| "Decoder_value P TUint8 v this =
     do { (x, this') \<leftarrow> Decoder_Uint8 this; Some ((None, VUint8 x), this') }"
| "Decoder_value P TUint16 v this =
     do { (x, this') \<leftarrow> Decoder_Uint16 this; Some ((None, VUint16 x), this') }"
| "Decoder_value P TUint32 v this =
     do { (x, this') \<leftarrow> Decoder_Uint32 this; Some ((None, VUint32 x), this') }"
| "Decoder_value P TUint64 v this =
     do { (x, this') \<leftarrow> Decoder_Uint64 this; Some ((None, VUint64 x), this') }"
| "Decoder_value P TFloat32 v this =
     do { (x, this') \<leftarrow> Decoder_Float32 this; Some ((None, VFloat32 (via_float64 x)), this') }"
| "Decoder_value P TFloat64 v this =
     do { (x, this') \<leftarrow> Decoder_Float64 this; Some ((None, VFloat64 x), this') }"
| "Decoder_value P TComplex64 v this =
     do { ((re, im), this') \<leftarrow> Decoder_Complex64 this;
          Some ((None, VComplex64 (via_float64 re) (via_float64 im)), this') }"
| "Decoder_value P TComplex128 v this =
     do { ((re, im), this') \<leftarrow> Decoder_Complex128 this; Some ((None, VComplex128 re im), this') }"
| "Decoder_value P TString v this =
     do { (x, this') \<leftarrow> Decoder_String this; Some ((None, VString x), this') }"
| "Decoder_value P (TSlice e) v this =
     Decoder_sequence (TSlice e) e (\<lambda>x d. Decoder_value P e x d) (Decoder_skipByType P e) v this"
| "Decoder_value P (TArray n e) v this =
     Decoder_sequence (TArray n e) e (\<lambda>x d. Decoder_value P e x d) (Decoder_skipByType P e) v this"
| "Decoder_value P (TMap kt vt) v this =
     do { ((s, k), this1) \<leftarrow> Decoder_Uvarint this;
          let sz = sint s;
          (m, this2) \<leftarrow> map_loop (\<lambda>d. Decoder_value P kt (zero kt) d)
                         (\<lambda>d. Decoder_value P vt (zero vt) d) (nat sz) [] this1;
          Some ((None, VMap m), this2) }"
| "Decoder_value P (TStruct fs) v this =
     (case v of
        VStruct xs \<Rightarrow>
          do { (ys, this') \<leftarrow>
                 struct_loop (map (\<lambda>(valid, ft). (valid, (\<lambda>x d. Decoder_value P ft x d))) fs)
                   0 xs this;
               Some ((None, VStruct ys), this') }
      | _ \<Rightarrow> None)"
| "Decoder_value P (TPtr e) v this =
     value_default (newPtr P (TPtr e) v) (\<lambda>x d. Decoder_value P e x d) v this"
| "Decoder_value P TOther v this =
     value_default (newPtr P TOther v) (\<lambda>x d. None) v this"

subsection \<open>fastValue and Value\<close>

text \<open>
  The destination \<open>x\<close> of \<open>Value\<close> and \<open>fastValue\<close> is an interface value: its dynamic
  type \<open>t\<close> and its content. The slice cases of \<open>fastValue\<close> differ in the primitive \<open>rd\<close>
  that reads an element only; \<open>make\<close> panics on a negative length.
\<close>

definition Decoder_fast_slice ::
  "val \<Rightarrow> (Decoder \<Rightarrow> (val \<times> Decoder) option) \<Rightarrow> val \<Rightarrow> Decoder \<Rightarrow>
     ((bool \<times> val) \<times> Decoder) option" where
  "Decoder_fast_slice z rd x this =
     do { ((s, k), this1) \<leftarrow> Decoder_Uvarint this;
          let l = sint s;
          if l < 0 then None
          else do { x1 \<leftarrow> assign x (VSlice (replicate (nat l) z));
                    (ys, this2) \<leftarrow> fast_loop rd 0 (nat l) (replicate (nat l) z) this1;
                    x2 \<leftarrow> assign x1 (VSlice ys);
                    Some ((True, x2), this2) } }"

definition Decoder_fast_bools :: "val \<Rightarrow> Decoder \<Rightarrow> ((bool \<times> val) \<times> Decoder) option" where
  "Decoder_fast_bools x this =
     do { ((s, k), this1) \<leftarrow> Decoder_Uvarint this;
          let l = sint s;
          if l < 0 then None
          else do { x1 \<leftarrow> assign x (VSlice (replicate (nat l) (VBool False)));
                    (ys, this2) \<leftarrow> bool_loop Decoder_reserve 0 (nat l) []
                                   (replicate (nat l) (VBool False)) this1;
                    x2 \<leftarrow> assign x1 (VSlice ys);
                    Some ((True, x2), this2) } }"

text \<open>\<open>rd_as C f\<close>: the primitive \<open>f\<close>, its result stored as the content \<open>C\<close>.\<close>

definition rd_as :: "('a \<Rightarrow> val) \<Rightarrow> ('s \<Rightarrow> ('a \<times> 's) option) \<Rightarrow> 's \<Rightarrow> (val \<times> 's) option" where
  "rd_as C f this = do { (w, this') \<leftarrow> f this; Some (C w, this') }"

definition fast_scalar ::
  "('s \<Rightarrow> (val \<times> 's) option) \<Rightarrow> val \<Rightarrow> 's \<Rightarrow> ((bool \<times> val) \<times> 's) option" where
  "fast_scalar rd x this =
     do { (w, this') \<leftarrow> rd this; x' \<leftarrow> assign x w; Some ((True, x'), this') }"

fun Decoder_fastValue ::
  "pkg \<Rightarrow> ty \<Rightarrow> val \<Rightarrow> Decoder \<Rightarrow> ((bool \<times> val) \<times> Decoder) option" where
  "Decoder_fastValue P (TPtr TInt) x this = fast_scalar (rd_as VInt (Decoder_Int P)) x this"
| "Decoder_fastValue P (TPtr TUint) x this = fast_scalar (rd_as VUint Decoder_Uint) x this"
| "Decoder_fastValue P (TPtr TBool) x this = fast_scalar (rd_as VBool Decoder_Bool) x this"
| "Decoder_fastValue P (TPtr TInt8) x this = fast_scalar (rd_as VInt8 Decoder_Int8) x this"
| "Decoder_fastValue P (TPtr TUint8) x this = fast_scalar (rd_as VUint8 Decoder_Uint8) x this"
| "Decoder_fastValue P (TPtr TInt16) x this = fast_scalar (rd_as VInt16 Decoder_Int16) x this"
| "Decoder_fastValue P (TPtr TUint16) x this = fast_scalar (rd_as VUint16 Decoder_Uint16) x this"
| "Decoder_fastValue P (TPtr TInt32) x this = fast_scalar (rd_as VInt32 Decoder_Int32) x this"
| "Decoder_fastValue P (TPtr TUint32) x this = fast_scalar (rd_as VUint32 Decoder_Uint32) x this"
| "Decoder_fastValue P (TPtr TFloat32) x this = fast_scalar (rd_as VFloat32 Decoder_Float32) x this"
| "Decoder_fastValue P (TPtr TInt64) x this = fast_scalar (rd_as VInt64 Decoder_Int64) x this"
| "Decoder_fastValue P (TPtr TUint64) x this = fast_scalar (rd_as VUint64 Decoder_Uint64) x this"
| "Decoder_fastValue P (TPtr TFloat64) x this = fast_scalar (rd_as VFloat64 Decoder_Float64) x this"
| "Decoder_fastValue P (TPtr TComplex64) x this =
     fast_scalar (rd_as (\<lambda>(re, im). VComplex64 re im) Decoder_Complex64) x this"
| "Decoder_fastValue P (TPtr TComplex128) x this =
     fast_scalar (rd_as (\<lambda>(re, im). VComplex128 re im) Decoder_Complex128) x this"
| "Decoder_fastValue P (TPtr TString) x this = fast_scalar (rd_as VString Decoder_String) x this"
| "Decoder_fastValue P (TPtr (TSlice TBool)) x this = Decoder_fast_bools x this"
| "Decoder_fastValue P (TPtr (TSlice TInt)) x this =
     Decoder_fast_slice (VInt 0) (rd_as VInt (Decoder_Int P)) x this"
| "Decoder_fastValue P (TPtr (TSlice TUint)) x this =
     Decoder_fast_slice (VUint 0) (rd_as VUint Decoder_Uint) x this"
| "Decoder_fastValue P (TPtr (TSlice TInt8)) x this =
     Decoder_fast_slice (VInt8 0) (rd_as VInt8 Decoder_Int8) x this"
| "Decoder_fastValue P (TPtr (TSlice TUint8)) x this =
     Decoder_fast_slice (VUint8 0) (rd_as VUint8 Decoder_Uint8) x this"
| "Decoder_fastValue P (TPtr (TSlice TInt16)) x this =
     Decoder_fast_slice (VInt16 0) (rd_as VInt16 Decoder_Int16) x this"
| "Decoder_fastValue P (TPtr (TSlice TUint16)) x this =
     Decoder_fast_slice (VUint16 0) (rd_as VUint16 Decoder_Uint16) x this"
| "Decoder_fastValue P (TPtr (TSlice TInt32)) x this =
     Decoder_fast_slice (VInt32 0) (rd_as VInt32 Decoder_Int32) x this"
| "Decoder_fastValue P (TPtr (TSlice TUint32)) x this =
     Decoder_fast_slice (VUint32 0) (rd_as VUint32 Decoder_Uint32) x this"
| "Decoder_fastValue P (TPtr (TSlice TInt64)) x this =
     Decoder_fast_slice (VInt64 0) (rd_as VInt64 Decoder_Int64) x this"
| "Decoder_fastValue P (TPtr (TSlice TUint64)) x this =
     Decoder_fast_slice (VUint64 0) (rd_as VUint64 Decoder_Uint64) x this"
| "Decoder_fastValue P (TPtr (TSlice TFloat32)) x this =
     Decoder_fast_slice (VFloat32 0) (rd_as VFloat32 Decoder_Float32) x this"
| "Decoder_fastValue P (TPtr (TSlice TFloat64)) x this =
     Decoder_fast_slice (VFloat64 0) (rd_as VFloat64 Decoder_Float64) x this"
| "Decoder_fastValue P (TPtr (TSlice TComplex64)) x this =
     Decoder_fast_slice (VComplex64 0 0)
       (rd_as (\<lambda>(re, im). VComplex64 re im) Decoder_Complex64) x this"
| "Decoder_fastValue P (TPtr (TSlice TComplex128)) x this =
     Decoder_fast_slice (VComplex128 0 0)
       (rd_as (\<lambda>(re, im). VComplex128 re im) Decoder_Complex128) x this"
| "Decoder_fastValue P (TPtr (TSlice TString)) x this =
     Decoder_fast_slice (VString []) (rd_as VString Decoder_String) x this"
| "Decoder_fastValue P t x this = Some ((False, x), this)"

text \<open>
  \<open>Value\<close> never panics: the deferred \<open>recover\<close> turns any panic into the error
  \<open>io.ErrUnexpectedEOF\<close>; what has been written and consumed before the panic is not
  modelled (\<open>None\<close>). \<open>Decoder.Value\<close> hands the pointer itself to \<open>value\<close>.
\<close>

definition Decoder_Value ::
  "pkg \<Rightarrow> ty \<Rightarrow> val \<Rightarrow> Decoder \<Rightarrow> error option \<times> (val \<times> Decoder) option" where
  "Decoder_Value P t x this =
     (case
        do { ((fast, x1), this1) \<leftarrow> Decoder_fastValue P t x this;
             if fast then Some ((None, x1), this1)
             else (case t of
                     TPtr e \<Rightarrow> Decoder_value P t x1 this1
                   | _ \<Rightarrow> Some ((Some NonPointer, x1), this1)) }
      of
        None \<Rightarrow> (Some ErrUnexpectedEOF, None)
      | Some ((err, x'), this') \<Rightarrow> (err, Some (x', this')))"

section \<open>decoderReader\<close>

definition decoderReader_Bool :: "decoderReader \<Rightarrow> (bool \<times> decoderReader) option" where
  "decoderReader_Bool this =
     do { (b, this') \<leftarrow> decoderReader_reserve this 1; Some (b ! 0 \<noteq> 0, this') }"

definition decoderReader_Int8 :: "decoderReader \<Rightarrow> (8 word \<times> decoderReader) option" where
  "decoderReader_Int8 this = decoderReader_Uint8 this"

definition decoderReader_Uint16 :: "decoderReader \<Rightarrow> (16 word \<times> decoderReader) option" where
  "decoderReader_Uint16 this =
     do { (b, this') \<leftarrow> decoderReader_reserve this 2;
          Some (Endian_Uint16 (rd_endian this) b, this') }"

definition decoderReader_Int16 :: "decoderReader \<Rightarrow> (16 word \<times> decoderReader) option" where
  "decoderReader_Int16 this = decoderReader_Uint16 this"

definition decoderReader_Uint32 :: "decoderReader \<Rightarrow> (32 word \<times> decoderReader) option" where
  "decoderReader_Uint32 this =
     do { (b, this') \<leftarrow> decoderReader_reserve this 4;
          Some (Endian_Uint32 (rd_endian this) b, this') }"

definition decoderReader_Int32 :: "decoderReader \<Rightarrow> (32 word \<times> decoderReader) option" where
  "decoderReader_Int32 this = decoderReader_Uint32 this"

definition decoderReader_Uint64 :: "decoderReader \<Rightarrow> (64 word \<times> decoderReader) option" where
  "decoderReader_Uint64 this =
     do { (b, this') \<leftarrow> decoderReader_reserve this 8;
          Some (Endian_Uint64 (rd_endian this) b, this') }"

definition decoderReader_Int64 :: "decoderReader \<Rightarrow> (64 word \<times> decoderReader) option" where
  "decoderReader_Int64 this = decoderReader_Uint64 this"

definition decoderReader_Float32 :: "decoderReader \<Rightarrow> (32 word \<times> decoderReader) option" where
  "decoderReader_Float32 this = decoderReader_Uint32 this"

definition decoderReader_Float64 :: "decoderReader \<Rightarrow> (64 word \<times> decoderReader) option" where
  "decoderReader_Float64 this = decoderReader_Uint64 this"

definition decoderReader_Complex64 ::
  "decoderReader \<Rightarrow> ((32 word \<times> 32 word) \<times> decoderReader) option" where
  "decoderReader_Complex64 this =
     do { (re, this1) \<leftarrow> decoderReader_Float32 this;
          (im, this2) \<leftarrow> decoderReader_Float32 this1;
          Some ((re, im), this2) }"

definition decoderReader_Complex128 ::
  "decoderReader \<Rightarrow> ((64 word \<times> 64 word) \<times> decoderReader) option" where
  "decoderReader_Complex128 this =
     do { (re, this1) \<leftarrow> decoderReader_Float64 this;
          (im, this2) \<leftarrow> decoderReader_Float64 this1;
          Some ((re, im), this2) }"

definition decoderReader_String :: "decoderReader \<Rightarrow> (byte list \<times> decoderReader) option" where
  "decoderReader_String this =
     do { ((s, n), this1) \<leftarrow> decoderReader_Uvarint this;
          let sz = sint s;
          (b, this2) \<leftarrow> decoderReader_reserve this1 sz;
          Some (b, this2) }"

definition decoderReader_Varint ::
  "pkg \<Rightarrow> decoderReader \<Rightarrow> ((64 word \<times> int) \<times> decoderReader) option" where
  "decoderReader_Varint P this =
     do { ((ux, n), this') \<leftarrow> decoderReader_Uvarint this; Some ((ToVarint P ux, n), this') }"

subsection \<open>boolArray\<close>

definition decoderReader_boolArray ::
  "ty \<Rightarrow> val \<Rightarrow> decoderReader \<Rightarrow> ((int \<times> val) \<times> decoderReader) option" where
  "decoderReader_boolArray t v this =
     (if isBoolSeq t then
        do { ((l', k), this1) \<leftarrow> decoderReader_Uvarint this;
             let l = sint l';
             xs \<leftarrow> elems v;
             let xs' = (if isSlice t \<and> l > 0 then replicate (nat l) (VBool False) else xs);
             (ys, this2) \<leftarrow> bool_loop decoderReader_reserve 0 (nat l) [] xs' this1;
             Some ((sizeofBoolArray l, with_elems v ys), this2) }
      else Some ((- 1, v), this))"

subsection \<open>skipByType\<close>

text \<open>Unlike \<open>Decoder.skipByType\<close>: the bool case subtracts the length \<open>sLen\<close> that
  \<open>Uvarint\<close> has returned, there is no case for \<open>Int\<close> and \<open>Uint\<close>, and the string case
  returns the length of the text only.\<close>

definition decoderReader_skip_sequence ::
  "ty \<Rightarrow> (decoderReader \<Rightarrow> (int \<times> decoderReader) option) \<Rightarrow> decoderReader \<Rightarrow>
     (int \<times> decoderReader) option" where
  "decoderReader_skip_sequence e f this =
     do { ((s, sLen), this1) \<leftarrow> decoderReader_Uvarint this;
          let cnt = sint s;
          if fixTypeSize e > 0 then
            (if e = TBool then
               let totalSize = sizeofBoolArray cnt;
                   sz = totalSize - sLen
               in do { (n, this2) \<leftarrow> decoderReader_Skip this1 sz; Some (totalSize, this2) }
             else
               let sz = int64 (cnt * fixTypeSize e)
               in do { (n, this2) \<leftarrow> decoderReader_Skip this1 sz; Some (sz, this2) })
          else skip_loop f (nat cnt) sLen this1 }"

fun decoderReader_skipByType :: "ty \<Rightarrow> decoderReader \<Rightarrow> (int \<times> decoderReader) option" where
  "decoderReader_skipByType t this =
     (if fixTypeSize t > 0 then
        do { (n, this') \<leftarrow> decoderReader_Skip this (fixTypeSize t); Some (fixTypeSize t, this') }
      else
        (case t of
           TString \<Rightarrow>
             do { ((s, n), this1) \<leftarrow> decoderReader_Uvarint this;
                  let sz = sint s;
                  (k, this2) \<leftarrow> decoderReader_Skip this1 sz;
                  Some (sz, this2) }
         | TSlice e \<Rightarrow> decoderReader_skip_sequence e (\<lambda>d. decoderReader_skipByType e d) this
         | TArray n e \<Rightarrow> decoderReader_skip_sequence e (\<lambda>d. decoderReader_skipByType e d) this
         | TMap kt vt \<Rightarrow>
             do { ((s, sLen), this1) \<leftarrow> decoderReader_Uvarint this;
                  let cnt = sint s;
                  skip_map_loop (\<lambda>d. decoderReader_skipByType kt d)
                    (\<lambda>d. decoderReader_skipByType vt d) (nat cnt) sLen this1 }
         | TStruct fs \<Rightarrow>
             skip_fields (map (\<lambda>(valid, ft). (\<lambda>d. decoderReader_skipByType ft d)) fs) 0 this
         | _ \<Rightarrow> Some (- 1, this)))"

subsection \<open>newPtr and value\<close>

text \<open>The kinds of the \<open>case\<close> list of \<open>newPtr\<close>.\<close>

fun newPtr_kind :: "ty \<Rightarrow> bool" where
  "newPtr_kind TBool = True"
| "newPtr_kind TInt8 = True"
| "newPtr_kind TUint8 = True"
| "newPtr_kind TInt16 = True"
| "newPtr_kind TUint16 = True"
| "newPtr_kind TInt32 = True"
| "newPtr_kind TUint32 = True"
| "newPtr_kind TInt64 = True"
| "newPtr_kind TUint64 = True"
| "newPtr_kind TFloat32 = True"
| "newPtr_kind TFloat64 = True"
| "newPtr_kind TComplex64 = True"
| "newPtr_kind TComplex128 = True"
| "newPtr_kind TString = True"
| "newPtr_kind (TArray n e) = True"
| "newPtr_kind (TStruct fs) = True"
| "newPtr_kind (TSlice e) = True"
| "newPtr_kind (TMap kt vt) = True"
| "newPtr_kind t = False"

text \<open>\<open>newPtr\<close> answers \<open>true\<close> only for a nil pointer to one of these kinds, which it
  sets to a new zero value.\<close>

definition decoderReader_newPtr :: "ty \<Rightarrow> val \<Rightarrow> bool \<times> val" where
  "decoderReader_newPtr t v =
     (case t of
        TPtr e \<Rightarrow>
          (if v = VPtr None then
             (if newPtr_kind e then (True, VPtr (Some (zero e))) else (False, v))
           else (False, v))
      | _ \<Rightarrow> (False, v))"

definition decoderReader_sequence ::
  "ty \<Rightarrow> ty \<Rightarrow> (val \<Rightarrow> decoderReader \<Rightarrow> ((error option \<times> val) \<times> decoderReader) option) \<Rightarrow>
     (decoderReader \<Rightarrow> (int \<times> decoderReader) option) \<Rightarrow> val \<Rightarrow> decoderReader \<Rightarrow>
     ((error option \<times> val) \<times> decoderReader) option" where
  "decoderReader_sequence t e f g v this =
     do { ((r, v1), this1) \<leftarrow> decoderReader_boolArray t v this;
          if r < 0 then
            do { ((s, k), this2) \<leftarrow> decoderReader_Uvarint this1;
                 let sz = sint s;
                 v2 \<leftarrow> (if isSlice t
                        then (if sz < 0 then None else Some (VSlice (replicate (nat sz) (zero e))))
                        else Some v1);
                 xs \<leftarrow> elems v2;
                 (ys, this3) \<leftarrow> elems_loop f g 0 (nat sz) xs this2;
                 Some ((None, with_elems v2 ys), this3) }
          else Some ((None, v1), this1) }"

fun decoderReader_value ::
  "ty \<Rightarrow> val \<Rightarrow> decoderReader \<Rightarrow> ((error option \<times> val) \<times> decoderReader) option" where
  "decoderReader_value TBool v this =
     do { (x, this') \<leftarrow> decoderReader_Bool this; Some ((None, VBool x), this') }"
| "decoderReader_value TInt8 v this =
     do { (x, this') \<leftarrow> decoderReader_Int8 this; Some ((None, VInt8 x), this') }"
| "decoderReader_value TInt16 v this =
     do { (x, this') \<leftarrow> decoderReader_Int16 this; Some ((None, VInt16 x), this') }"
| "decoderReader_value TInt32 v this =
     do { (x, this') \<leftarrow> decoderReader_Int32 this; Some ((None, VInt32 x), this') }"
| "decoderReader_value TInt64 v this =
     do { (x, this') \<leftarrow> decoderReader_Int64 this; Some ((None, VInt64 x), this') }"
| "decoderReader_value TUint8 v this =
     do { (x, this') \<leftarrow> decoderReader_Uint8 this; Some ((None, VUint8 x), this') }"
| "decoderReader_value TUint16 v this =
     do { (x, this') \<leftarrow> decoderReader_Uint16 this; Some ((None, VUint16 x), this') }"
| "decoderReader_value TUint32 v this =
     do { (x, this') \<leftarrow> decoderReader_Uint32 this; Some ((None, VUint32 x), this') }"
| "decoderReader_value TUint64 v this =
     do { (x, this') \<leftarrow> decoderReader_Uint64 this; Some ((None, VUint64 x), this') }"
| "decoderReader_value TFloat32 v this =
     do { (x, this') \<leftarrow> decoderReader_Float32 this;
          Some ((None, VFloat32 (via_float64 x)), this') }"
| "decoderReader_value TFloat64 v this =
     do { (x, this') \<leftarrow> decoderReader_Float64 this; Some ((None, VFloat64 x), this') }"
| "decoderReader_value TComplex64 v this =
     do { (re, this1) \<leftarrow> decoderReader_Float32 this;
          (im, this2) \<leftarrow> decoderReader_Float32 this1;
          Some ((None, VComplex64 (via_float64 re) (via_float64 im)), this2) }"
| "decoderReader_value TComplex128 v this =
     do { (re, this1) \<leftarrow> decoderReader_Float64 this;
          (im, this2) \<leftarrow> decoderReader_Float64 this1;
          Some ((None, VComplex128 re im), this2) }"
| "decoderReader_value TString v this =
     do { (x, this') \<leftarrow> decoderReader_String this; Some ((None, VString x), this') }"
| "decoderReader_value (TSlice e) v this =
     decoderReader_sequence (TSlice e) e (\<lambda>x d. decoderReader_value e x d)
       (decoderReader_skipByType e) v this"
| "decoderReader_value (TArray n e) v this =
     decoderReader_sequence (TArray n e) e (\<lambda>x d. decoderReader_value e x d)
       (decoderReader_skipByType e) v this"
| "decoderReader_value (TMap kt vt) v this =
     do { ((s, k), this1) \<leftarrow> decoderReader_Uvarint this;
          let sz = sint s;
          (m, this2) \<leftarrow> map_loop (\<lambda>d. decoderReader_value kt (zero kt) d)
                         (\<lambda>d. decoderReader_value vt (zero vt) d) (nat sz) [] this1;
          Some ((None, VMap m), this2) }"
| "decoderReader_value (TStruct fs) v this =
     (case v of
        VStruct xs \<Rightarrow>
          do { (ys, this') \<leftarrow>
                 struct_loop (map (\<lambda>(valid, ft). (valid, (\<lambda>x d. decoderReader_value ft x d))) fs)
                   0 xs this;
               Some ((None, VStruct ys), this') }
      | _ \<Rightarrow> None)"
| "decoderReader_value (TPtr e) v this =
     value_default (decoderReader_newPtr (TPtr e) v) (\<lambda>x d. decoderReader_value e x d) v this"
| "decoderReader_value TInt v this =
     value_default (decoderReader_newPtr TInt v) (\<lambda>x d. None) v this"
| "decoderReader_value TUint v this =
     value_default (decoderReader_newPtr TUint v) (\<lambda>x d. None) v this"
| "decoderReader_value TOther v this =
     value_default (decoderReader_newPtr TOther v) (\<lambda>x d. None) v this"

subsection \<open>fastValue and Value\<close>

definition decoderReader_fast_slice ::
  "val \<Rightarrow> (decoderReader \<Rightarrow> (val \<times> decoderReader) option) \<Rightarrow> val \<Rightarrow> decoderReader \<Rightarrow>
     ((bool \<times> val) \<times> decoderReader) option" where
  "decoderReader_fast_slice z rd x this =
     do { ((s, k), this1) \<leftarrow> decoderReader_Uvarint this;
          let l = sint s;
          if l < 0 then None
          else do { x1 \<leftarrow> assign x (VSlice (replicate (nat l) z));
                    (ys, this2) \<leftarrow> fast_loop rd 0 (nat l) (replicate (nat l) z) this1;
                    x2 \<leftarrow> assign x1 (VSlice ys);
                    Some ((True, x2), this2) } }"

definition decoderReader_fast_bools ::
  "val \<Rightarrow> decoderReader \<Rightarrow> ((bool \<times> val) \<times> decoderReader) option" where
  "decoderReader_fast_bools x this =
     do { ((s, k), this1) \<leftarrow> decoderReader_Uvarint this;
          let l = sint s;
          if l < 0 then None
          else do { x1 \<leftarrow> assign x (VSlice (replicate (nat l) (VBool False)));
                    (ys, this2) \<leftarrow> bool_loop decoderReader_reserve 0 (nat l) []
                                   (replicate (nat l) (VBool False)) this1;
                    x2 \<leftarrow> assign x1 (VSlice ys);
                    Some ((True, x2), this2) } }"

fun decoderReader_fastValue ::
  "ty \<Rightarrow> val \<Rightarrow> decoderReader \<Rightarrow> ((bool \<times> val) \<times> decoderReader) option" where
  "decoderReader_fastValue (TPtr TBool) x this = fast_scalar (rd_as VBool decoderReader_Bool) x this"
| "decoderReader_fastValue (TPtr TInt8) x this = fast_scalar (rd_as VInt8 decoderReader_Int8) x this"
| "decoderReader_fastValue (TPtr TUint8) x this = fast_scalar (rd_as VUint8 decoderReader_Uint8) x this"
| "decoderReader_fastValue (TPtr TInt16) x this = fast_scalar (rd_as VInt16 decoderReader_Int16) x this"
| "decoderReader_fastValue (TPtr TUint16) x this = fast_scalar (rd_as VUint16 decoderReader_Uint16) x this"
| "decoderReader_fastValue (TPtr TInt32) x this = fast_scalar (rd_as VInt32 decoderReader_Int32) x this"
| "decoderReader_fastValue (TPtr TUint32) x this = fast_scalar (rd_as VUint32 decoderReader_Uint32) x this"
| "decoderReader_fastValue (TPtr TFloat32) x this = fast_scalar (rd_as VFloat32 decoderReader_Float32) x this"
| "decoderReader_fastValue (TPtr TInt64) x this = fast_scalar (rd_as VInt64 decoderReader_Int64) x this"
| "decoderReader_fastValue (TPtr TUint64) x this = fast_scalar (rd_as VUint64 decoderReader_Uint64) x this"
| "decoderReader_fastValue (TPtr TFloat64) x this = fast_scalar (rd_as VFloat64 decoderReader_Float64) x this"
| "decoderReader_fastValue (TPtr TComplex64) x this =
     fast_scalar (rd_as (\<lambda>(re, im). VComplex64 re im) decoderReader_Complex64) x this"
| "decoderReader_fastValue (TPtr TComplex128) x this =
     fast_scalar (rd_as (\<lambda>(re, im). VComplex128 re im) decoderReader_Complex128) x this"
| "decoderReader_fastValue (TPtr TString) x this = fast_scalar (rd_as VString decoderReader_String) x this"
| "decoderReader_fastValue (TPtr (TSlice TBool)) x this = decoderReader_fast_bools x this"
| "decoderReader_fastValue (TPtr (TSlice TInt8)) x this =
     decoderReader_fast_slice (VInt8 0) (rd_as VInt8 decoderReader_Int8) x this"
| "decoderReader_fastValue (TPtr (TSlice TUint8)) x this =
     decoderReader_fast_slice (VUint8 0) (rd_as VUint8 decoderReader_Uint8) x this"
| "decoderReader_fastValue (TPtr (TSlice TInt16)) x this =
     decoderReader_fast_slice (VInt16 0) (rd_as VInt16 decoderReader_Int16) x this"
| "decoderReader_fastValue (TPtr (TSlice TUint16)) x this =
     decoderReader_fast_slice (VUint16 0) (rd_as VUint16 decoderReader_Uint16) x this"
| "decoderReader_fastValue (TPtr (TSlice TInt32)) x this =
     decoderReader_fast_slice (VInt32 0) (rd_as VInt32 decoderReader_Int32) x this"
| "decoderReader_fastValue (TPtr (TSlice TUint32)) x this =
     decoderReader_fast_slice (VUint32 0) (rd_as VUint32 decoderReader_Uint32) x this"
| "decoderReader_fastValue (TPtr (TSlice TInt64)) x this =
     decoderReader_fast_slice (VInt64 0) (rd_as VInt64 decoderReader_Int64) x this"
| "decoderReader_fastValue (TPtr (TSlice TUint64)) x this =
     decoderReader_fast_slice (VUint64 0) (rd_as VUint64 decoderReader_Uint64) x this"
| "decoderReader_fastValue (TPtr (TSlice TFloat32)) x this =
     decoderReader_fast_slice (VFloat32 0) (rd_as VFloat32 decoderReader_Float32) x this"
| "decoderReader_fastValue (TPtr (TSlice TFloat64)) x this =
     decoderReader_fast_slice (VFloat64 0) (rd_as VFloat64 decoderReader_Float64) x this"
| "decoderReader_fastValue (TPtr (TSlice TComplex64)) x this =
     decoderReader_fast_slice (VComplex64 0 0)
       (rd_as (\<lambda>(re, im). VComplex64 re im) decoderReader_Complex64) x this"
| "decoderReader_fastValue (TPtr (TSlice TComplex128)) x this =
     decoderReader_fast_slice (VComplex128 0 0)
       (rd_as (\<lambda>(re, im). VComplex128 re im) decoderReader_Complex128) x this"
| "decoderReader_fastValue (TPtr (TSlice TString)) x this =
     decoderReader_fast_slice (VString []) (rd_as VString decoderReader_String) x this"
| "decoderReader_fastValue t x this = Some ((False, x), this)"

text \<open>
  \<open>decoderReader.Value\<close> has no \<open>recover\<close>: a panic leaves it as a panic. It hands
  \<open>reflect.Indirect(v)\<close>, the pointee, to \<open>value\<close>; the pointee of a nil pointer is the
  zero \<open>reflect.Value\<close>, on which the default case of \<open>value\<close> panics.
\<close>

definition decoderReader_Value ::
  "ty \<Rightarrow> val \<Rightarrow> decoderReader \<Rightarrow> ((error option \<times> val) \<times> decoderReader) option" where
  "decoderReader_Value t x this =
     do { ((fast, x1), this1) \<leftarrow> decoderReader_fastValue t x this;
          if fast then Some ((None, x1), this1)
          else (case t of
                  TPtr e \<Rightarrow>
                    (case x1 of
                       VPtr (Some y) \<Rightarrow>
                         do { ((err, y'), this2) \<leftarrow> decoderReader_value e y this1;
                              Some ((err, VPtr (Some y')), this2) }
                     | _ \<Rightarrow> None)
                | _ \<Rightarrow> Some ((Some NonPointer, x1), this1)) }"

section \<open>Concrete collaborators for the examples\<close>

text \<open>
  A package for the closed examples below: \<open>ToVarint\<close> as the zig-zag transform of Go's
  \<open>encoding/binary\<close>, \<open>newPtr\<close> as the method of \<open>decoderReader\<close>. The general theorems
  hold for every package and do not use it.
\<close>

definition example_pkg :: pkg where
  "example_pkg =
     \<lparr>ToVarint = (\<lambda>ux. if ux AND 1 = 0 then drop_bit 1 ux else NOT (drop_bit 1 ux)),
      newPtr = decoderReader_newPtr\<rparr>"

section \<open>Classes of shapes\<close>






text \<open>
  Modelled from the spec, section 4.3: the first \<open>l\<close> elements of the bool sequence
  packed in the bytes \<open>bs\<close>: "Bit i of the sequence is stored at byte i/8, bit position
  i%8 (least-significant-bit-first within each byte), value 1 = true".
\<close>

definition unpack_bools :: "byte list \<Rightarrow> nat \<Rightarrow> val list" where
  "unpack_bools bs l = map (\<lambda>i. VBool (bit (bs ! (i div 8)) (i mod 8))) [0..<l]"



text \<open>
  The shapes on which \<open>skipByType\<close> reads the same in both decoders (no text, whose
  count is returned differently, no bool sequence, whose prefix is subtracted
  differently, no \<open>int\<close> and \<open>uint\<close>): the fixed-size scalar kinds, and the sequences,
  mappings and structs of these shapes.
\<close>

fun skip_alike :: "ty \<Rightarrow> bool" where
  "skip_alike (TSlice e) = (e \<noteq> TBool \<and> skip_alike e)"
| "skip_alike (TArray n e) = (e \<noteq> TBool \<and> skip_alike e)"
| "skip_alike (TMap kt vt) = (skip_alike kt \<and> skip_alike vt)"
| "skip_alike (TStruct fs) = list_all (\<lambda>(valid, ft). skip_alike ft) fs"
| "skip_alike t = (0 < fixTypeSize t)"

text \<open>
  The shapes on which the two decoders are compared: every shape built from the
  fixed-size scalar kinds, text, slices, mappings, structs and arrays, where the
  elements of an array are bool, text or of a shape that both decoders skip alike (an
  array shorter than the encoded count has the rest skipped). \<open>decoderReader\<close> has no
  \<open>Int\<close> and \<open>Uint\<close>, and the \<open>newPtr\<close> that \<open>Decoder\<close> calls on a pointer is not under
  src/.
\<close>

fun common :: "ty \<Rightarrow> bool" where
  "common TInt = False"
| "common TUint = False"
| "common (TPtr e) = False"
| "common TOther = False"
| "common (TSlice e) = common e"
| "common (TArray n e) = (common e \<and> (e = TBool \<or> e = TString \<or> skip_alike e))"
| "common (TMap kt vt) = (common kt \<and> common vt)"
| "common (TStruct fs) = list_all (\<lambda>(valid, ft). common ft) fs"
| "common t = True"

text \<open>The outcome of a call without its result: whether it panics, and the decoder after
  it.\<close>

definition cursor_only :: "('a \<times> 's) option \<Rightarrow> (unit \<times> 's) option" where
  "cursor_only x = map_option (\<lambda>(a, s). ((), s)) x"
section \<open>Simplification setup\<close>

text \<open>The equations of the loops and of \<open>skipByType\<close> are unfolded by hand.\<close>

declare PutUvarint.simps [simp del]
declare Decoder_Uvarint_loop.simps [simp del]
declare decoderReader_Uvarint_loop.simps [simp del]
declare bool_loop.simps [simp del]
declare elems_loop.simps [simp del]
declare fast_loop.simps [simp del]
declare Decoder_skipByType.simps [simp del]
declare decoderReader_skipByType.simps [simp del]

section \<open>Properties of the varint codec\<close>



lemma m7: "(0x7f :: 'a::len word) = mask 7"
  by (simp add: mask_eq_exp_minus_1)

lemma ucast_low7: "(ucast ((ucast (y :: 64 word) OR 0x80 :: byte) AND 0x7f) :: 64 word) = y AND 0x7f"
proof -
  have "(ucast y OR 0x80 :: byte) AND 0x7f = (ucast y AND 0x7f) OR (0x80 AND 0x7f)"
    by (simp add: bit.conj_disj_distrib2)
  also have "(0x80 :: byte) AND 0x7f = 0"
    by simp
  also have "(ucast y AND 0x7f) OR 0 = (ucast y AND mask 7 :: byte)"
    by (simp only: m7 or.right_neutral)
  finally have "(ucast y OR 0x80 :: byte) AND 0x7f = ucast y AND mask 7" .
  moreover have "(ucast (ucast y AND mask 7 :: byte) :: 64 word) = y AND mask 7"
    by (rule bit_word_eqI) (auto simp: bit_simps)
  ultimately show ?thesis by (simp add: m7)
qed

lemma split7: "(x OR push_bit s ((y :: 64 word) AND 0x7f)) OR push_bit (s + 7) (drop_bit 7 y) = x OR push_bit s y"
proof (rule bit_word_eqI)
  fix n assume n: "n < LENGTH(64)"
  show "bit ((x OR push_bit s (y AND 0x7f)) OR push_bit (s + 7) (drop_bit 7 y)) n = bit (x OR push_bit s y) n"
  proof (cases "s + 7 \<le> n")
    case True
    then have "7 + (n - (s + 7)) = n - s" by arith
    with True show ?thesis unfolding m7 by (auto simp: bit_simps)
  next
    case False
    then show ?thesis unfolding m7 by (auto simp: bit_simps)
  qed
qed

lemma cont_bit: "\<not> ((w :: byte) OR 0x80) < 0x80"
proof -
  have "(0x80 :: byte) \<le> 0x80 OR w" by (rule le_word_or2)
  then show ?thesis by (simp add: or.commute not_less)
qed

lemma small_ucast: "(y :: 64 word) < 0x80 \<Longrightarrow> (ucast y :: byte) < 0x80"
  by (simp add: word_less_nat_alt unsigned_ucast_eq take_bit_eq_mod)

lemma small_and: "(y :: 64 word) < 0x80 \<Longrightarrow> (ucast ((ucast y :: byte) AND 0x7f) :: 64 word) = y"
proof -
  assume "y < 0x80"
  then have "y < 2 ^ 7" by simp
  then have e: "y AND mask 7 = y" by (rule less_mask_eq)
  have "(ucast ((ucast y :: byte) AND mask 7) :: 64 word) = y AND mask 7"
    by (rule bit_word_eqI) (auto simp: bit_simps)
  then show ?thesis using e by (simp add: m7)
qed

lemma small_ucast1: "(y :: 64 word) < 2 \<Longrightarrow> \<not> (ucast y :: byte) > 1"
  by (simp add: word_less_nat_alt unsigned_ucast_eq take_bit_eq_mod)



lemma Decoder_reserve_eq:
  "Decoder_reserve this sz =
     (if 0 \<le> sz \<and> nat sz \<le> length (Decoder_rest this)
      then Some (take (nat sz) (Decoder_rest this), Decoder_advance this (nat sz)) else None)"
  by (auto simp: Decoder_reserve_def coder_reserve_def Decoder_rest_def Decoder_advance_def Let_def
      split: option.splits)

lemma decoderReader_reserve_eq:
  "decoderReader_reserve this sz =
     (if 0 \<le> sz \<and> nat sz \<le> length (rd_r this)
      then Some (take (nat sz) (rd_r this), decoderReader_advance this (nat sz)) else None)"
  by (auto simp: decoderReader_reserve_def decoderReader_advance_def Let_def)

lemma Decoder_rest_advance [simp]:
  "Decoder_rest (Decoder_advance this n) = drop n (Decoder_rest this)"
  by (simp add: Decoder_rest_def Decoder_advance_def add.commute split: option.splits)

lemma Decoder_advance_advance [simp]:
  "Decoder_advance (Decoder_advance this n) m = Decoder_advance this (n + m)"
  by (simp add: Decoder_advance_def add.commute split: option.splits)

lemma Decoder_advance_0 [simp]: "Decoder_advance this 0 = this"
  by (simp add: Decoder_advance_def split: option.splits)

lemma endian_advance [simp]: "endian (Decoder_advance this n) = endian this"
  by (simp add: Decoder_advance_def split: option.splits)

lemma rd_r_advance [simp]: "rd_r (decoderReader_advance this n) = drop n (rd_r this)"
  by (simp add: decoderReader_advance_def)

lemma rd_endian_advance [simp]: "rd_endian (decoderReader_advance this n) = rd_endian this"
  by (simp add: decoderReader_advance_def)

lemma decoderReader_advance_advance [simp]:
  "decoderReader_advance (decoderReader_advance this n) m = decoderReader_advance this (n + m)"
  by (simp add: decoderReader_advance_def add.commute)

lemma decoderReader_advance_0 [simp]: "decoderReader_advance this 0 = this"
  by (simp add: decoderReader_advance_def)

lemma Decoder_Uint8_eq:
  "Decoder_Uint8 this =
     (case Decoder_rest this of [] \<Rightarrow> None | b # bs \<Rightarrow> Some (b, Decoder_advance this 1))"
  by (simp add: Decoder_Uint8_def Decoder_reserve_eq split: list.splits)

lemma decoderReader_Uint8_eq:
  "decoderReader_Uint8 this =
     (case rd_r this of [] \<Rightarrow> None | b # bs \<Rightarrow> Some (b, decoderReader_advance this 1))"
  by (simp add: decoderReader_Uint8_def decoderReader_reserve_eq split: list.splits)

lemma PutUvarint_small: "x < 0x80 \<Longrightarrow> PutUvarint x = [ucast x]"
  by (simp add: PutUvarint.simps)

lemma PutUvarint_large:
  "\<not> x < 0x80 \<Longrightarrow> PutUvarint x = (ucast x OR 0x80) # PutUvarint (drop_bit 7 x)"
  by (simp add: PutUvarint.simps)

lemma group_bounds:
  assumes "\<not> (y :: 64 word) < 0x80" and "k \<le> 9" and "unat y < 2 ^ (64 - 7 * k)"
  shows "k \<le> 8" and "unat (drop_bit 7 y) < 2 ^ (64 - 7 * Suc k)"
proof -
  have big: "128 \<le> unat y"
    using assms(1) by (simp add: word_less_nat_alt)
  show k8: "k \<le> 8"
  proof (rule ccontr)
    assume "\<not> k \<le> 8"
    with assms(2) have "k = 9" by simp
    with assms(3) big show False by simp
  qed
  have "(2::nat) ^ (64 - 7 * k) = 2 ^ (7 + (64 - 7 * Suc k))"
    using k8 by (intro arg_cong [where f = "\<lambda>n. (2::nat) ^ n"]) simp
  also have "\<dots> = 128 * 2 ^ (64 - 7 * Suc k)"
    by (simp add: power_add)
  finally have "unat y < 128 * 2 ^ (64 - 7 * Suc k)"
    using assms(3) by simp
  then have "unat y div 128 < 2 ^ (64 - 7 * Suc k)"
    by (simp add: less_mult_imp_div_less mult.commute)
  then show "unat (drop_bit 7 y) < 2 ^ (64 - 7 * Suc k)"
    by (simp add: drop_bit_eq_div unat_div)
qed

lemma last_group:
  assumes "(y :: 64 word) < 0x80" and "k \<le> 9" and "unat y < 2 ^ (64 - 7 * k)"
  shows "\<not> (9 < int k \<or> int k = 9 \<and> 1 < (ucast y :: byte))"
proof -
  have "k = 9 \<Longrightarrow> y < 2"
    using assms(3) by (simp add: word_less_nat_alt)
  then show ?thesis
    using assms(2) small_ucast1 [of y] by auto
qed

lemma Decoder_Uvarint_loop_PutUvarint:
  assumes "Decoder_rest this = PutUvarint y @ rest"
    and "k \<le> 9" and "unat y < 2 ^ (64 - 7 * k)"
  shows "Decoder_Uvarint_loop (int k) x (7 * k) this =
           Some ((x OR push_bit (7 * k) y, int k + int (length (PutUvarint y))),
                 Decoder_advance this (length (PutUvarint y)))"
  using assms
proof (induction y arbitrary: k x this rule: PutUvarint.induct)
  case (1 y)
  have lt: "int k < MaxVarintLen64"
    using "1.prems"(2) by (simp add: MaxVarintLen64_def)
  show ?case
  proof (cases "y < 0x80")
    case True
    show ?thesis
      using True lt last_group [OF True "1.prems"(2,3)] "1.prems"(1)
      by (subst Decoder_Uvarint_loop.simps)
         (simp add: Decoder_Uint8_eq small_ucast small_and PutUvarint_small)
  next
    case False
    let ?this' = "Decoder_advance this 1"
    have d: "Decoder_rest ?this' = PutUvarint (drop_bit 7 y) @ rest"
      using "1.prems"(1) False by (simp add: PutUvarint_large)
    have ih: "Decoder_Uvarint_loop (int (Suc k)) x' (7 * Suc k) ?this' =
          Some ((x' OR push_bit (7 * Suc k) (drop_bit 7 y),
                 int (Suc k) + int (length (PutUvarint (drop_bit 7 y)))),
                Decoder_advance ?this' (length (PutUvarint (drop_bit 7 y))))" for x'
      using d group_bounds [OF False "1.prems"(2,3)]
      by (intro "1.IH" [OF False]) simp_all
    have s: "7 * Suc k = 7 * k + 7" "int (Suc k) = int k + 1"
      by simp_all
    have step: "Decoder_Uvarint_loop (int k) x (7 * k) this =
        Decoder_Uvarint_loop (int k + 1) (x OR push_bit (7 * k) (y AND 0x7f)) (7 * k + 7) ?this'"
      using lt "1.prems"(1)
      by (subst Decoder_Uvarint_loop.simps)
         (simp add: Decoder_Uint8_eq cont_bit ucast_low7 PutUvarint_large [OF False])
    show ?thesis
      unfolding step ih [unfolded s] split7
      by (simp add: PutUvarint_large [OF False])
  qed
qed

lemma length_PutUvarint_le:
  "unat y < 2 ^ (7 * k) \<Longrightarrow> 0 < k \<Longrightarrow> length (PutUvarint y) \<le> k"
proof (induction y arbitrary: k rule: PutUvarint.induct)
  case (1 y)
  show ?case
  proof (cases "y < 0x80")
    case True
    then show ?thesis using "1.prems" by (simp add: PutUvarint_small)
  next
    case False
    then have big: "128 \<le> unat y"
      by (simp add: word_less_nat_alt)
    obtain j where k: "k = Suc j"
      using "1.prems"(2) by (cases k) auto
    have j: "0 < j"
    proof (rule ccontr)
      assume "\<not> 0 < j"
      then have "k = 1" using k by simp
      with "1.prems"(1) big show False by simp
    qed
    have "unat y < 128 * 2 ^ (7 * j)"
      using "1.prems"(1) k by (simp add: power_add)
    then have "unat y div 128 < 2 ^ (7 * j)"
      by (simp add: less_mult_imp_div_less mult.commute)
    then have "unat (drop_bit 7 y) < 2 ^ (7 * j)"
      by (simp add: drop_bit_eq_div unat_div)
    from "1.IH" [OF False this j] show ?thesis
      using k by (simp add: PutUvarint_large [OF False])
  qed
qed

lemma length_PutUvarint: "1 \<le> length (PutUvarint y)" "length (PutUvarint y) \<le> 10"
proof -
  show "1 \<le> length (PutUvarint y)"
    by (cases "y < 0x80") (simp_all add: PutUvarint_small PutUvarint_large)
  have "unat y < 2 ^ 64"
    using unsigned_less [of y] by simp
  also have "(2::nat) ^ 64 < 2 ^ (7 * 10)"
    by simp
  finally show "length (PutUvarint y) \<le> 10"
    by (rule length_PutUvarint_le) simp
qed

lemma Decoder_Uvarint_PutUvarint:
  assumes "Decoder_rest this = PutUvarint x @ rest"
  shows "Decoder_Uvarint this =
    Some ((x, int (length (PutUvarint x))), Decoder_advance this (length (PutUvarint x)))"
proof -
  have "unat x < 2 ^ (64 - 7 * 0)"
    using unsigned_less [of x] by simp
  from Decoder_Uvarint_loop_PutUvarint [OF assms _ this, of 0] show ?thesis
    by (simp add: Decoder_Uvarint_def)
qed


lemma sim_advance: "sim d r \<Longrightarrow> sim (Decoder_advance d n) (decoderReader_advance r n)"
  by (simp add: sim_def)

lemma same_read_return: "same_read d r (Some (a, d)) (Some (a, r))"
  unfolding same_read_def by (auto intro: exI [of _ 0])

lemma same_read_bind:
  assumes "same_read d r x y"
    and "\<And>a n. n \<le> length (Decoder_rest d) \<Longrightarrow> x = Some (a, Decoder_advance d n) \<Longrightarrow>
           same_read (Decoder_advance d n) (decoderReader_advance r n)
             (f a (Decoder_advance d n)) (g a (decoderReader_advance r n))"
  shows "same_read d r (x \<bind> (\<lambda>(a, d'). f a d')) (y \<bind> (\<lambda>(a, r'). g a r'))"
proof (cases x)
  case None
  then show ?thesis using assms(1) by (simp add: same_read_def)
next
  case (Some p)
  obtain a d' where p: "p = (a, d')" by (cases p)
  from assms(1) Some p obtain n where n: "n \<le> length (Decoder_rest d)"
    "d' = Decoder_advance d n" "y = Some (a, decoderReader_advance r n)"
    by (auto simp: same_read_def)
  have c: "same_read (Decoder_advance d n) (decoderReader_advance r n)
          (f a (Decoder_advance d n)) (g a (decoderReader_advance r n))"
    using n Some p by (intro assms(2)) simp_all
  show ?thesis
  proof (cases "f a (Decoder_advance d n)")
    case None
    then show ?thesis using c n Some p by (simp add: same_read_def)
  next
    case (Some q)
    obtain b d'' where q: "q = (b, d'')" by (cases q)
    from c Some q obtain m where m: "m \<le> length (Decoder_rest (Decoder_advance d n))"
      "d'' = Decoder_advance (Decoder_advance d n) m"
      "g a (decoderReader_advance r n) = Some (b, decoderReader_advance (decoderReader_advance r n) m)"
      by (auto simp: same_read_def)
    have "n + m \<le> length (Decoder_rest d)"
      using n(1) m(1) by simp
    then show ?thesis
      using n m Some q \<open>x = Some p\<close> p
      by (auto simp: same_read_def intro!: exI [of _ "n + m"])
  qed
qed

lemma sim_reserve: "sim d r \<Longrightarrow> same_read d r (Decoder_reserve d sz) (decoderReader_reserve r sz)"
  by (auto simp: same_read_def sim_def Decoder_reserve_eq decoderReader_reserve_eq)

lemma sim_Uint8: "sim d r \<Longrightarrow> same_read d r (Decoder_Uint8 d) (decoderReader_Uint8 r)"
  by (auto simp: same_read_def sim_def Decoder_Uint8_eq decoderReader_Uint8_eq split: list.splits
      intro: exI [of _ 1])

lemma low7_small: "(b :: byte) < 0x80 \<Longrightarrow> b AND 0x7f = b"
proof -
  assume "b < 0x80"
  then have "b < 2 ^ 7" by simp
  then have "b AND mask 7 = b" by (rule less_mask_eq)
  then show ?thesis by (simp add: m7)
qed

lemma sim_Uvarint_loop:
  "sim d r \<Longrightarrow>
   same_read d r (Decoder_Uvarint_loop i x s d) (decoderReader_Uvarint_loop i x s r)"
proof (induction "nat (MaxVarintLen64 - i)" arbitrary: i x s d r)
  case 0
  then show ?case
    by (subst Decoder_Uvarint_loop.simps, subst decoderReader_Uvarint_loop.simps)
       (simp add: same_read_return)
next
  case (Suc m)
  then have lt: "i < MaxVarintLen64" by simp
  have "same_read d r
     (Decoder_Uint8 d \<bind> (\<lambda>(b, this').
        let x' = x OR push_bit s (ucast (b AND 0x7f)) in
        if b < 0x80 then
          (if i > 9 \<or> i = 9 \<and> b > 1 then Some ((0, - (i + 1)), this')
           else Some ((x', i + 1), this'))
        else Decoder_Uvarint_loop (i + 1) x' (s + 7) this'))
     (decoderReader_Uint8 r \<bind> (\<lambda>(b, this').
        if b < 0x80 then
          (if i > 9 \<or> i = 9 \<and> b > 1 then Some ((0, - (i + 1)), this')
           else Some ((x OR push_bit s (ucast b), i + 1), this'))
        else decoderReader_Uvarint_loop (i + 1)
               (x OR push_bit s (ucast (b AND 0x7f))) (s + 7) this'))"
  proof (rule same_read_bind [OF sim_Uint8 [OF Suc.prems]])
    fix b :: byte and n :: nat
    assume "n \<le> length (Decoder_rest d)"
    show "same_read (Decoder_advance d n) (decoderReader_advance r n)
        (let x' = x OR push_bit s (ucast (b AND 0x7f)) in
         if b < 0x80 then
           (if i > 9 \<or> i = 9 \<and> b > 1 then Some ((0, - (i + 1)), Decoder_advance d n)
            else Some ((x', i + 1), Decoder_advance d n))
         else Decoder_Uvarint_loop (i + 1) x' (s + 7) (Decoder_advance d n))
        (if b < 0x80 then
           (if i > 9 \<or> i = 9 \<and> b > 1 then Some ((0, - (i + 1)), decoderReader_advance r n)
            else Some ((x OR push_bit s (ucast b), i + 1), decoderReader_advance r n))
         else decoderReader_Uvarint_loop (i + 1)
                (x OR push_bit s (ucast (b AND 0x7f))) (s + 7) (decoderReader_advance r n))"
    proof (cases "b < 0x80")
      case True
      then have "b AND 0x7f = b" by (rule low7_small)
      then show ?thesis using True by (simp add: same_read_return)
    next
      case False
      have "m = nat (MaxVarintLen64 - (i + 1))"
        using Suc.hyps(2) by simp
      from Suc.hyps(1) [OF this sim_advance [OF Suc.prems]] False show ?thesis
        by simp
    qed
  qed
  then show ?case
    using lt
    by (subst Decoder_Uvarint_loop.simps, subst decoderReader_Uvarint_loop.simps) simp
qed

lemma sim_Uvarint: "sim d r \<Longrightarrow> same_read d r (Decoder_Uvarint d) (decoderReader_Uvarint r)"
  by (simp add: Decoder_Uvarint_def decoderReader_Uvarint_def sim_Uvarint_loop)


lemma Decoder_advance_inject:
  assumes "Decoder_advance d k = Decoder_advance d n"
    and "k \<le> length (Decoder_rest d)" and "n \<le> length (Decoder_rest d)"
  shows "k = n"
proof -
  have "length (Decoder_rest (Decoder_advance d k)) = length (Decoder_rest (Decoder_advance d n))"
    using assms(1) by simp
  then show ?thesis
    using assms(2,3) by simp
qed

lemma same_read_SomeD:
  assumes "same_read d r (Some (a, Decoder_advance d k)) y" and "k \<le> length (Decoder_rest d)"
  shows "y = Some (a, decoderReader_advance r k)"
proof -
  from assms(1) obtain n where n: "n \<le> length (Decoder_rest d)"
    "Decoder_advance d k = Decoder_advance d n" "y = Some (a, decoderReader_advance r n)"
    by (auto simp: same_read_def)
  from Decoder_advance_inject [OF n(2) assms(2) n(1)] n(3) show ?thesis
    by simp
qed

lemma same_read_SomeE:
  assumes "same_read d r x (Some (a, r'))"
  obtains n where "n \<le> length (Decoder_rest d)" "x = Some (a, Decoder_advance d n)"
    "r' = decoderReader_advance r n"
  using assms by (auto simp: same_read_def split: option.splits)

lemma sim_as_Decoder: "sim (as_Decoder r) r"
  by (simp add: sim_def as_Decoder_def Decoder_rest_def)

lemma Decoder_rest_as_Decoder [simp]: "Decoder_rest (as_Decoder r) = rd_r r"
  by (simp add: as_Decoder_def Decoder_rest_def)

lemma decoderReader_Uvarint_PutUvarint:
  assumes "rd_r this = PutUvarint x @ rest"
  shows "decoderReader_Uvarint this =
    Some ((x, int (length (PutUvarint x))), decoderReader_advance this (length (PutUvarint x)))"
proof -
  have "Decoder_Uvarint (as_Decoder this) =
      Some ((x, int (length (PutUvarint x))),
            Decoder_advance (as_Decoder this) (length (PutUvarint x)))"
    using assms by (intro Decoder_Uvarint_PutUvarint [where rest = rest]) simp
  with sim_Uvarint [OF sim_as_Decoder [of this]] show ?thesis
    using assms by (intro same_read_SomeD [where d = "as_Decoder this"]) simp_all
qed

lemma Decoder_Uvarint_loop_fail:
  assumes "Decoder_Uvarint_loop (int k) x s this = Some ((v, n), this')"
    and "n \<le> 0" and "k \<le> 10"
  shows "v = 0 \<and> this' = Decoder_advance this (10 - k) \<and> 10 - k \<le> length (Decoder_rest this) \<and>
         (\<forall>j. j + k < 9 \<longrightarrow> 0x80 \<le> Decoder_rest this ! j) \<and>
         (k \<le> 9 \<longrightarrow> (Decoder_rest this ! (9 - k) < 0x80 \<longrightarrow>
                       1 < Decoder_rest this ! (9 - k) \<and> n = - 10) \<and>
                    (\<not> Decoder_rest this ! (9 - k) < 0x80 \<longrightarrow> n = 0))"
  using assms
proof (induction "10 - k" arbitrary: k x s this)
  case 0
  then have "k = 10" by simp
  with "0.prems"(1) show ?case
    by (simp add: Decoder_Uvarint_loop.simps MaxVarintLen64_def)
next
  case (Suc m)
  then have k: "k \<le> 9" by simp
  then have lt: "int k < MaxVarintLen64" by (simp add: MaxVarintLen64_def)
  from Suc.prems(1) lt obtain b bs where r: "Decoder_rest this = b # bs"
    by (subst (asm) Decoder_Uvarint_loop.simps)
       (auto simp: Decoder_Uint8_eq split: list.splits)
  show ?case
  proof (cases "b < 0x80")
    case True
    from Suc.prems(1,2) lt r True k have "k = 9 \<and> 1 < b \<and> n = - 10 \<and> v = 0 \<and> this' = Decoder_advance this 1"
      by (subst (asm) Decoder_Uvarint_loop.simps)
         (auto simp: Decoder_Uint8_eq split: if_splits)
    then show ?thesis using r True by simp
  next
    case False
    from Suc.prems(1) lt r False
    have rec: "Decoder_Uvarint_loop (int (Suc k)) (x OR push_bit s (ucast (b AND 0x7f))) (s + 7)
        (Decoder_advance this 1) = Some ((v, n), this')"
      by (subst (asm) Decoder_Uvarint_loop.simps)
         (simp add: Decoder_Uint8_eq add.commute)
    have m: "m = 10 - Suc k" using Suc.hyps(2) by simp
    have k10: "Suc k \<le> 10" using k by simp
    note IH = Suc.hyps(1) [OF m rec Suc.prems(2) k10]
    have e: "1 + (10 - Suc k) = 10 - k" using k by simp
    have rest1: "Decoder_rest (Decoder_advance this 1) = bs" using r by simp
    note IH' = IH [unfolded rest1 Decoder_advance_advance e]
    have ih: "v = 0" "this' = Decoder_advance this (10 - k)" "10 - Suc k \<le> length bs"
      "\<forall>j. j + Suc k < 9 \<longrightarrow> 0x80 \<le> bs ! j"
      "Suc k \<le> 9 \<longrightarrow> (bs ! (9 - Suc k) < 0x80 \<longrightarrow> 1 < bs ! (9 - Suc k) \<and> n = - 10) \<and>
                    (\<not> bs ! (9 - Suc k) < 0x80 \<longrightarrow> n = 0)"
      using IH' by blast+
    have ih6: "k = 9 \<longrightarrow> n = 0"
      using rec by (auto simp: Decoder_Uvarint_loop.simps MaxVarintLen64_def)
    have a: "\<forall>j. j + k < 9 \<longrightarrow> 0x80 \<le> (b # bs) ! j"
    proof (intro allI impI)
      fix j assume "j + k < 9"
      then show "0x80 \<le> (b # bs) ! j"
        using ih(4) False by (cases j) (auto simp: not_less)
    qed
    have c: "((b # bs) ! (9 - k) < 0x80 \<longrightarrow> 1 < (b # bs) ! (9 - k) \<and> n = - 10) \<and>
             (\<not> (b # bs) ! (9 - k) < 0x80 \<longrightarrow> n = 0)"
    proof (cases "k = 9")
      case True
      then show ?thesis using ih6 False by simp
    next
      case False
      then have "9 - k = Suc (9 - Suc k)" "Suc k \<le> 9" using k by simp_all
      then show ?thesis using ih(5) by simp
    qed
    have l: "10 - k \<le> length (b # bs)"
      using ih(3) k by simp
    show ?thesis
      unfolding r using ih(1,2) a c l by blast
  qed
qed

lemma Decoder_Uvarint_loop_cont:
  assumes "\<forall>j<m. 0x80 \<le> Decoder_rest this ! j" and "m \<le> length (Decoder_rest this)"
    and "k + m \<le> 10"
  shows "\<exists>x'. Decoder_Uvarint_loop (int k) x s this =
               Decoder_Uvarint_loop (int (k + m)) x' (s + 7 * m) (Decoder_advance this m)"
  using assms
proof (induction m arbitrary: k x s this)
  case 0
  then show ?case by auto
next
  case (Suc m)
  from Suc.prems(2) obtain b bs where r: "Decoder_rest this = b # bs"
    by (cases "Decoder_rest this") auto
  have b: "\<not> b < 0x80"
    using Suc.prems(1) r by (auto simp: not_less)
  have lt: "int k < MaxVarintLen64"
    using Suc.prems(3) by (simp add: MaxVarintLen64_def)
  have step: "Decoder_Uvarint_loop (int k) x s this =
      Decoder_Uvarint_loop (int (Suc k)) (x OR push_bit s (ucast (b AND 0x7f))) (s + 7)
        (Decoder_advance this 1)"
    using lt r b
    by (subst Decoder_Uvarint_loop.simps) (simp add: Decoder_Uint8_eq add.commute)
  have "\<forall>j<m. 0x80 \<le> Decoder_rest (Decoder_advance this 1) ! j"
    using Suc.prems(1) r by auto
  moreover have "m \<le> length (Decoder_rest (Decoder_advance this 1))"
    using Suc.prems(2) r by simp
  moreover have "Suc k + m \<le> 10"
    using Suc.prems(3) by simp
  ultimately obtain x' where
    "Decoder_Uvarint_loop (int (Suc k)) (x OR push_bit s (ucast (b AND 0x7f))) (s + 7)
        (Decoder_advance this 1) =
     Decoder_Uvarint_loop (int (Suc k + m)) x' (s + 7 + 7 * m)
        (Decoder_advance (Decoder_advance this 1) m)"
    using Suc.IH by blast
  with step show ?case
    by (intro exI [of _ x']) (simp add: ac_simps)
qed

lemma Decoder_Uvarint_overflow:
  assumes "10 \<le> length (Decoder_rest this)" and "\<forall>j<9. 0x80 \<le> Decoder_rest this ! j"
    and "Decoder_rest this ! 9 < 0x80" and "1 < Decoder_rest this ! 9"
  shows "Decoder_Uvarint this = Some ((0, - 10), Decoder_advance this 10)"
proof -
  from Decoder_Uvarint_loop_cont [of 9 this 0 0 0] assms(1,2) obtain x' where
    x': "Decoder_Uvarint this = Decoder_Uvarint_loop 9 x' 63 (Decoder_advance this 9)"
    by (auto simp: Decoder_Uvarint_def)
  obtain b bs where r: "drop 9 (Decoder_rest this) = b # bs"
    using assms(1) by (cases "drop 9 (Decoder_rest this)") auto
  then have "b = Decoder_rest this ! 9"
    using assms(1) by (metis Cons_nth_drop_Suc list.inject not_less not_less_eq_eq numeral_eq_Suc
        pred_numeral_simps(3) Suc_le_eq drop_eq_Nil2 list.distinct(1))
  with assms(3,4) r show ?thesis
    unfolding x'
    by (subst Decoder_Uvarint_loop.simps)
       (simp add: MaxVarintLen64_def Decoder_Uint8_eq)
qed


lemma Decoder_Uvarint_all_cont:
  assumes "10 \<le> length (Decoder_rest this)" and "\<forall>j<10. 0x80 \<le> Decoder_rest this ! j"
  shows "Decoder_Uvarint this = Some ((0, 0), Decoder_advance this 10)"
proof -
  from Decoder_Uvarint_loop_cont [of 10 this 0 0 0] assms obtain x' where
    "Decoder_Uvarint this = Decoder_Uvarint_loop 10 x' 70 (Decoder_advance this 10)"
    by (auto simp: Decoder_Uvarint_def)
  then show ?thesis
    by (simp add: Decoder_Uvarint_loop.simps MaxVarintLen64_def)
qed

lemma Decoder_Uvarint_fail:
  assumes "Decoder_Uvarint this = Some ((v, n), this')" and "n \<le> 0"
  shows "v = 0 \<and> this' = Decoder_advance this 10 \<and> 10 \<le> length (Decoder_rest this) \<and>
         (\<forall>j<9. 0x80 \<le> Decoder_rest this ! j) \<and>
         (Decoder_rest this ! 9 < 0x80 \<longrightarrow> 1 < Decoder_rest this ! 9 \<and> n = - 10) \<and>
         (\<not> Decoder_rest this ! 9 < 0x80 \<longrightarrow> n = 0)"
  using Decoder_Uvarint_loop_fail [of 0 0 0 this v n this'] assms
  by (simp add: Decoder_Uvarint_def)

lemma decoderReader_from_Decoder:
  assumes "sim d r" and "same_read d r (F d) (G r)"
    and "F d = Some (a, Decoder_advance d k)" and "k \<le> length (Decoder_rest d)"
  shows "G r = Some (a, decoderReader_advance r k)"
  using assms same_read_SomeD by metis

lemma decoderReader_Uvarint_fail:
  assumes "decoderReader_Uvarint this = Some ((v, n), this')" and "n \<le> 0"
  shows "v = 0 \<and> this' = decoderReader_advance this 10 \<and> 10 \<le> length (rd_r this) \<and>
         (\<forall>j<9. 0x80 \<le> rd_r this ! j) \<and>
         (rd_r this ! 9 < 0x80 \<longrightarrow> 1 < rd_r this ! 9 \<and> n = - 10) \<and>
         (\<not> rd_r this ! 9 < 0x80 \<longrightarrow> n = 0)"
proof -
  let ?d = "as_Decoder this"
  from sim_Uvarint [OF sim_as_Decoder [of this]] assms(1)
  obtain k where k: "k \<le> length (Decoder_rest ?d)"
    "Decoder_Uvarint ?d = Some ((v, n), Decoder_advance ?d k)"
    "this' = decoderReader_advance this k"
    by (auto elim: same_read_SomeE)
  note f = Decoder_Uvarint_fail [OF k(2) assms(2)]
  then have "Decoder_advance ?d k = Decoder_advance ?d 10" "10 \<le> length (Decoder_rest ?d)"
    by simp_all
  then have "k = 10"
    using k(1) by (intro Decoder_advance_inject [of ?d k 10])
  with f k(3) show ?thesis
    by simp
qed

lemma decoderReader_Uvarint_overflow:
  assumes "10 \<le> length (rd_r this)" and "\<forall>j<9. 0x80 \<le> rd_r this ! j"
    and "rd_r this ! 9 < 0x80" and "1 < rd_r this ! 9"
  shows "decoderReader_Uvarint this = Some ((0, - 10), decoderReader_advance this 10)"
proof -
  have "Decoder_Uvarint (as_Decoder this) = Some ((0, - 10), Decoder_advance (as_Decoder this) 10)"
    using assms by (intro Decoder_Uvarint_overflow) simp_all
  with sim_Uvarint [OF sim_as_Decoder [of this]] show ?thesis
    using assms(1) by (intro same_read_SomeD [where d = "as_Decoder this"]) simp_all
qed

lemma decoderReader_Uvarint_all_cont:
  assumes "10 \<le> length (rd_r this)" and "\<forall>j<10. 0x80 \<le> rd_r this ! j"
  shows "decoderReader_Uvarint this = Some ((0, 0), decoderReader_advance this 10)"
proof -
  have "Decoder_Uvarint (as_Decoder this) = Some ((0, 0), Decoder_advance (as_Decoder this) 10)"
    using assms by (intro Decoder_Uvarint_all_cont) simp_all
  with sim_Uvarint [OF sim_as_Decoder [of this]] show ?thesis
    using assms(1) by (intro same_read_SomeD [where d = "as_Decoder this"]) simp_all
qed

text \<open>
  C3. For every unsigned 64-bit value \<open>x\<close>, \<open>Uvarint\<close> of either decoder, reading the
  minimal varint encoding of \<open>x\<close> (followed by any bytes), returns \<open>x\<close> together with a
  byte count that is the length of that encoding, and has consumed exactly these bytes;
  the length is between 1 and 10.
\<close>

theorem Uvarint_PutUvarint:
  "(Decoder_rest d = PutUvarint x @ rest \<longrightarrow>
      Decoder_Uvarint d =
        Some ((x, int (length (PutUvarint x))), Decoder_advance d (length (PutUvarint x)))) \<and>
   (rd_r r = PutUvarint x @ rest \<longrightarrow>
      decoderReader_Uvarint r =
        Some ((x, int (length (PutUvarint x))), decoderReader_advance r (length (PutUvarint x)))) \<and>
   1 \<le> length (PutUvarint x) \<and> length (PutUvarint x) \<le> 10"
  using Decoder_Uvarint_PutUvarint [of d x rest] decoderReader_Uvarint_PutUvarint [of r x rest]
    length_PutUvarint [of x]
  by blast

theorem Uvarint_PutUvarint_witness:
  "Decoder_Uvarint (NewDecoderEndian [0xAC, 0x02, 0x07] LittleEndian) =
     Some ((300, 2), Decoder_advance (NewDecoderEndian [0xAC, 0x02, 0x07] LittleEndian) 2) \<and>
   decoderReader_Uvarint (NewDecoderReader [0xAC, 0x02, 0x07] LittleEndian) =
     Some ((300, 2), NewDecoderReader [0x07] LittleEndian) \<and>
   PutUvarint 300 = [0xAC, 0x02]"
  using Uvarint_PutUvarint [of "NewDecoderEndian [0xAC, 0x02, 0x07] LittleEndian" 300 "[0x07]"
      "NewDecoderReader [0xAC, 0x02, 0x07] LittleEndian"]
  by (simp add: PutUvarint.simps Decoder_rest_def NewDecoderEndian_def NewDecoderReader_def
      decoderReader_advance_def Decoder_advance_def)

text \<open>
  C4, as amended. \<open>Uvarint\<close> reports a failure (a byte count \<open>\<le> 0\<close>) only after it has
  consumed ten bytes of which the first nine carry the continuation bit, and then in one
  of two ways: the tenth byte ends the sequence with a payload above 1, and the byte count
  is \<open>-10\<close>, the negation of the bytes consumed; or the tenth byte carries the
  continuation bit too, and the byte count is \<open>0\<close>. Conversely every such input is
  reported so. The value returned with a failure is 0.
\<close>

theorem Uvarint_failure:
  "(Decoder_Uvarint d = Some ((v, n), d') \<and> n \<le> 0 \<longrightarrow>
      v = 0 \<and> d' = Decoder_advance d 10 \<and> 10 \<le> length (Decoder_rest d) \<and>
      (\<forall>j<9. 0x80 \<le> Decoder_rest d ! j) \<and>
      (Decoder_rest d ! 9 < 0x80 \<longrightarrow> 1 < Decoder_rest d ! 9 \<and> n = - 10) \<and>
      (\<not> Decoder_rest d ! 9 < 0x80 \<longrightarrow> n = 0)) \<and>
   (10 \<le> length (Decoder_rest d) \<and> (\<forall>j<9. 0x80 \<le> Decoder_rest d ! j) \<longrightarrow>
      Decoder_Uvarint d =
        (if Decoder_rest d ! 9 < 0x80
         then (if 1 < Decoder_rest d ! 9 then Some ((0, - 10), Decoder_advance d 10)
               else Decoder_Uvarint d)
         else Some ((0, 0), Decoder_advance d 10))) \<and>
   (decoderReader_Uvarint r = Some ((w, m), r') \<and> m \<le> 0 \<longrightarrow>
      w = 0 \<and> r' = decoderReader_advance r 10 \<and> 10 \<le> length (rd_r r) \<and>
      (\<forall>j<9. 0x80 \<le> rd_r r ! j) \<and>
      (rd_r r ! 9 < 0x80 \<longrightarrow> 1 < rd_r r ! 9 \<and> m = - 10) \<and>
      (\<not> rd_r r ! 9 < 0x80 \<longrightarrow> m = 0)) \<and>
   (10 \<le> length (rd_r r) \<and> (\<forall>j<9. 0x80 \<le> rd_r r ! j) \<longrightarrow>
      decoderReader_Uvarint r =
        (if rd_r r ! 9 < 0x80
         then (if 1 < rd_r r ! 9 then Some ((0, - 10), decoderReader_advance r 10)
               else decoderReader_Uvarint r)
         else Some ((0, 0), decoderReader_advance r 10)))"
proof (intro conjI impI)
  assume a: "10 \<le> length (Decoder_rest d) \<and> (\<forall>j<9. 0x80 \<le> Decoder_rest d ! j)"
  have "\<not> Decoder_rest d ! 9 < 0x80 \<Longrightarrow> \<forall>j<10. 0x80 \<le> Decoder_rest d ! j"
  proof (intro allI impI)
    fix j :: nat assume "\<not> Decoder_rest d ! 9 < 0x80" "j < 10"
    then show "0x80 \<le> Decoder_rest d ! j"
      using a by (cases "j = 9") (auto simp: not_less)
  qed
  then show "Decoder_Uvarint d =
        (if Decoder_rest d ! 9 < 0x80
         then (if 1 < Decoder_rest d ! 9 then Some ((0, - 10), Decoder_advance d 10)
               else Decoder_Uvarint d)
         else Some ((0, 0), Decoder_advance d 10))"
    using a Decoder_Uvarint_overflow [of d] Decoder_Uvarint_all_cont [of d] by auto
next
  assume a: "10 \<le> length (rd_r r) \<and> (\<forall>j<9. 0x80 \<le> rd_r r ! j)"
  have "\<not> rd_r r ! 9 < 0x80 \<Longrightarrow> \<forall>j<10. 0x80 \<le> rd_r r ! j"
  proof (intro allI impI)
    fix j :: nat assume "\<not> rd_r r ! 9 < 0x80" "j < 10"
    then show "0x80 \<le> rd_r r ! j"
      using a by (cases "j = 9") (auto simp: not_less)
  qed
  then show "decoderReader_Uvarint r =
        (if rd_r r ! 9 < 0x80
         then (if 1 < rd_r r ! 9 then Some ((0, - 10), decoderReader_advance r 10)
               else decoderReader_Uvarint r)
         else Some ((0, 0), decoderReader_advance r 10))"
    using a decoderReader_Uvarint_overflow [of r] decoderReader_Uvarint_all_cont [of r] by auto
qed (use Decoder_Uvarint_fail [of d v n d'] decoderReader_Uvarint_fail [of r w m r'] in blast)+


lemma all_nth_take:
  "n \<le> length xs \<Longrightarrow> (\<forall>j<n. P (xs ! j)) \<longleftrightarrow> list_all P (take n xs)"
  by (auto simp: list_all_length)

theorem Uvarint_failure_witness:
  "Decoder_Uvarint
     (NewDecoderEndian [0xFF, 0xFF, 0xFF, 0xFF, 0xFF, 0xFF, 0xFF, 0xFF, 0xFF, 0x02] LittleEndian) =
     Some ((0, - 10),
       \<lparr>buff = [0xFF, 0xFF, 0xFF, 0xFF, 0xFF, 0xFF, 0xFF, 0xFF, 0xFF, 0x02], pos = 10,
        endian = LittleEndian, reader = None\<rparr>) \<and>
   decoderReader_Uvarint
     (NewDecoderReader [0xFF, 0xFF, 0xFF, 0xFF, 0xFF, 0xFF, 0xFF, 0xFF, 0xFF, 0x02] LittleEndian) =
     Some ((0, - 10), NewDecoderReader [] LittleEndian)"
proof -
  let ?bs = "[0xFF, 0xFF, 0xFF, 0xFF, 0xFF, 0xFF, 0xFF, 0xFF, 0xFF, 0x02] :: byte list"
  let ?D = "NewDecoderEndian ?bs LittleEndian"
  let ?R = "NewDecoderReader ?bs LittleEndian"
  note T = Uvarint_failure [of ?D 0 0 ?D ?R 0 0 ?R]
  have bs: "\<forall>j<9. 0x80 \<le> ?bs ! j"
    by (subst all_nth_take) simp_all
  have D: "Decoder_rest ?D = ?bs" and R: "rd_r ?R = ?bs"
    by (simp_all add: Decoder_rest_def NewDecoderEndian_def NewDecoderReader_def)
  have "10 \<le> length (Decoder_rest ?D) \<and> (\<forall>j<9. 0x80 \<le> Decoder_rest ?D ! j)"
    unfolding D using bs by simp
  with T have "Decoder_Uvarint ?D =
        (if Decoder_rest ?D ! 9 < 0x80
         then (if 1 < Decoder_rest ?D ! 9 then Some ((0, - 10), Decoder_advance ?D 10)
               else Decoder_Uvarint ?D)
         else Some ((0, 0), Decoder_advance ?D 10))"
    by blast
  then have 1: "Decoder_Uvarint ?D = Some ((0, - 10), Decoder_advance ?D 10)"
    unfolding D by simp
  have "10 \<le> length (rd_r ?R) \<and> (\<forall>j<9. 0x80 \<le> rd_r ?R ! j)"
    unfolding R using bs by simp
  with T have "decoderReader_Uvarint ?R =
        (if rd_r ?R ! 9 < 0x80
         then (if 1 < rd_r ?R ! 9 then Some ((0, - 10), decoderReader_advance ?R 10)
               else decoderReader_Uvarint ?R)
         else Some ((0, 0), decoderReader_advance ?R 10))"
    by blast
  then have 2: "decoderReader_Uvarint ?R = Some ((0, - 10), decoderReader_advance ?R 10)"
    unfolding R by simp
  from 1 2 show ?thesis
    by (simp add: NewDecoderEndian_def NewDecoderReader_def Decoder_advance_def
        decoderReader_advance_def)
qed

text \<open>
  C4 as stated fails: after ten bytes that all carry the continuation bit the byte count
  is \<open>0\<close>, not \<open>-10\<close>.
\<close>

theorem Uvarint_ten_continuation_bytes:
  "Decoder_Uvarint
     (NewDecoderEndian [0x80, 0x80, 0x80, 0x80, 0x80, 0x80, 0x80, 0x80, 0x80, 0x80] LittleEndian) =
     Some ((0, 0),
       \<lparr>buff = [0x80, 0x80, 0x80, 0x80, 0x80, 0x80, 0x80, 0x80, 0x80, 0x80], pos = 10,
        endian = LittleEndian, reader = None\<rparr>) \<and>
   decoderReader_Uvarint
     (NewDecoderReader [0x80, 0x80, 0x80, 0x80, 0x80, 0x80, 0x80, 0x80, 0x80, 0x80] LittleEndian) =
     Some ((0, 0), NewDecoderReader [] LittleEndian)"
  by (simp add: Decoder_Uvarint_def Decoder_Uvarint_loop.simps decoderReader_Uvarint_def
      decoderReader_Uvarint_loop.simps MaxVarintLen64_def Decoder_Uint8_eq decoderReader_Uint8_eq
      Decoder_rest_def NewDecoderEndian_def NewDecoderReader_def
      decoderReader_advance_def Decoder_advance_def)


section \<open>Pointers, entry points and failed length prefixes\<close>


lemma elems_loop_done: "\<not> i < sz \<Longrightarrow> elems_loop f g i sz xs this = Some (xs, this)"
  by (simp add: elems_loop.simps)

lemma bool_loop_done: "\<not> i < l \<Longrightarrow> bool_loop rs i l b xs this = Some (xs, this)"
  by (simp add: bool_loop.simps)


lemma Decoder_reserve_0 [simp]: "Decoder_reserve this 0 = Some ([], this)"
  by (simp add: Decoder_reserve_eq)
















text \<open>
  C6. \<open>decoderReader.Value\<close> does not catch the panic of a short read: an 8-byte integer
  asked from a 3-byte stream leaves \<open>Value\<close> as a panic, where \<open>Decoder.Value\<close> returns
  the error \<open>io.ErrUnexpectedEOF\<close>.
\<close>

theorem decoderReader_Value_short_read_panics:
  "decoderReader_Value (TPtr TUint64) (VPtr (Some (VUint64 0)))
     (NewDecoderReader [1, 2, 3] LittleEndian) = None \<and>
   Decoder_Value example_pkg (TPtr TUint64) (VPtr (Some (VUint64 0)))
     (NewDecoderEndian [1, 2, 3] LittleEndian) = (Some ErrUnexpectedEOF, None)"
  by (simp add: decoderReader_Value_def Decoder_Value_def fast_scalar_def rd_as_def
      decoderReader_Uint64_def Decoder_Uint64_def decoderReader_reserve_def Decoder_reserve_def
      coder_reserve_def NewDecoderReader_def NewDecoderEndian_def)

section \<open>The fast path and the general path\<close>


lemma via_float64_0 [simp]: "via_float64 0 = 0"
  by (simp add: via_float64_def)












lemma Decoder_Uvarint_small:
  "Decoder_rest this = b # bs \<Longrightarrow> b < 0x80 \<Longrightarrow>
   Decoder_Uvarint this = Some ((ucast b, 1), Decoder_advance this 1)"
proof -
  assume r: "Decoder_rest this = b # bs" and b: "b < 0x80"
  have "(ucast b :: 64 word) < 0x80"
    using b by (simp add: word_less_nat_alt unsigned_ucast_eq take_bit_eq_mod)
  then have p: "PutUvarint (ucast b) = [ucast (ucast b :: 64 word)]"
    by (rule PutUvarint_small)
  have "(ucast (ucast b :: 64 word) :: byte) = b"
    by (rule bit_word_eqI) (auto simp: bit_simps)
  with p have "Decoder_rest this = PutUvarint (ucast b) @ bs"
    using r by simp
  from Decoder_Uvarint_PutUvarint [OF this] p show ?thesis
    by simp
qed


section \<open>The bool-sequence codec\<close>



lemma take1_drop: "k < length bs \<Longrightarrow> take (Suc 0) (drop k bs) = [bs ! k]"
  by (simp add: take_Suc_conv_app_nth)

lemma bool_loop_step:
  assumes "i < l" and "i < length xs"
    and "(if i mod 8 = 0 then reserve this 1 else Some (b, this)) = Some (b', this')"
  shows "bool_loop reserve i l b xs this =
     bool_loop reserve (i + 1) l b' (xs[i := VBool (bit (b' ! 0) (i mod 8))]) this'"
  using assms
  by (subst bool_loop.simps) (simp add: Let_def and_exp_eq_0_iff_not_bit)

lemma div8_less: "i < l \<Longrightarrow> i div 8 < (l + 7) div (8::nat)"
proof -
  assume "i < l"
  hence "i + 8 \<le> l + 7" by simp
  hence "(i + 8) div 8 \<le> (l + 7) div 8" by (rule div_le_mono)
  thus ?thesis by simp
qed

lemma div8_aligned: "i mod 8 = 0 \<Longrightarrow> (i + 7) div 8 = i div (8::nat)"
proof -
  assume "i mod 8 = 0"
  then obtain k where "i = 8 * k" by (auto simp: mod_eq_0_iff_dvd)
  thus ?thesis by simp
qed

lemma div8_next: "(8 + i) div 8 = Suc (i div (8::nat))"
  by simp

lemma div8_qr: "(r::nat) < 8 \<Longrightarrow> 0 < r \<Longrightarrow> (8 * q + r + 7) div 8 = Suc q"
  by (rule div_nat_eqI) simp_all

lemma div8_qr1: "Suc r < 8 \<Longrightarrow> (8 * q + Suc r) div 8 = q"
  by (rule div_nat_eqI) simp_all

lemma div8_unaligned: "i mod 8 \<noteq> 0 \<Longrightarrow> (i + 7) div 8 = Suc (i div (8::nat))"
proof -
  assume a: "i mod 8 \<noteq> 0"
  define q where "q = i div 8"
  define r where "r = i mod 8"
  have i: "i = 8 * q + r" unfolding q_def r_def by simp
  have "r < 8" "0 < r" using a unfolding r_def by simp_all
  thus ?thesis unfolding q_def [symmetric] unfolding i by (rule div8_qr)
qed

lemma div8_same_byte: "Suc i mod 8 \<noteq> 0 \<Longrightarrow> Suc i div 8 = i div (8::nat)"
proof -
  assume a: "Suc i mod 8 \<noteq> 0"
  define q where "q = i div 8"
  define r where "r = i mod 8"
  have i: "i = 8 * q + r" unfolding q_def r_def by simp
  have r: "r < 8" unfolding r_def by simp
  have "Suc r \<noteq> 8"
  proof
    assume "Suc r = 8"
    hence "Suc i = 8 * Suc q" using i by simp
    hence "Suc i mod 8 = 0" by simp
    thus False using a by simp
  qed
  hence "Suc r < 8" using r by simp
  hence "(8 * q + Suc r) div 8 = q" by (rule div8_qr1)
  thus ?thesis unfolding q_def [symmetric] using i by simp
qed

lemma bool_loop_Decoder:
  assumes "l \<le> length xs" and "i \<le> l" and "(l + 7) div 8 \<le> length (Decoder_rest this0)"
    and "i mod 8 \<noteq> 0 \<Longrightarrow> b = [Decoder_rest this0 ! (i div 8)]"
  shows "bool_loop Decoder_reserve i l b xs (Decoder_advance this0 ((i + 7) div 8)) =
     Some (map (\<lambda>j. if i \<le> j \<and> j < l
                     then VBool (bit (Decoder_rest this0 ! (j div 8)) (j mod 8)) else xs ! j)
             [0..<length xs],
           Decoder_advance this0 ((l + 7) div 8))"
  using assms
proof (induction "l - i" arbitrary: i b xs)
  case 0
  then have "i = l" by simp
  moreover have "map (\<lambda>j. if l \<le> j \<and> j < l
        then VBool (bit (Decoder_rest this0 ! (j div 8)) (j mod 8)) else xs ! j) [0..<length xs] = xs"
    by (intro nth_equalityI) auto
  ultimately show ?case
    by (simp add: bool_loop_done)
next
  case (Suc m)
  let ?BS = "Decoder_rest this0"
  let ?d = "Decoder_advance this0 ((i + 7) div 8)"
  let ?b' = "[?BS ! (i div 8)]"
  let ?xs' = "xs[i := VBool (bit (?BS ! (i div 8)) (i mod 8))]"
  from Suc.hyps(2) have i: "i < l" by simp
  then have ixs: "i < length xs" using Suc.prems(1) by simp
  have k: "i div 8 < length ?BS"
  proof -
    have "i div 8 < (l + 7) div 8" using i by (rule div8_less)
    then show ?thesis using Suc.prems(3) by simp
  qed
  have rd: "(if i mod 8 = 0 then Decoder_reserve ?d 1 else Some (b, ?d)) =
      Some (?b', Decoder_advance this0 ((i + 1 + 7) div 8))"
  proof (cases "i mod 8 = 0")
    case True
    then have e: "(i + 7) div 8 = i div 8" "(8 + i) div 8 = Suc (i div 8)"
      by (simp_all only: div8_aligned div8_next)
    have "Suc 0 \<le> length ?BS - i div 8"
      using k by simp
    then show ?thesis
      using True k by (simp add: Decoder_reserve_eq e take1_drop)
  next
    case False
    have e: "(8 + i) div 8 = (i + 7) div 8"
      unfolding div8_next div8_unaligned [OF False] by (rule refl)
    show ?thesis
      using False Suc.prems(4) by (simp add: e)
  qed
  have m: "m = l - (i + 1)" using Suc.hyps(2) by simp
  have b': "(i + 1) mod 8 \<noteq> 0 \<Longrightarrow> ?b' = [?BS ! ((i + 1) div 8)]"
  proof -
    assume "(i + 1) mod 8 \<noteq> 0"
    then have "(i + 1) div 8 = i div 8" using div8_same_byte [of i] by simp
    then show ?thesis by simp
  qed
  have ih: "bool_loop Decoder_reserve (i + 1) l ?b' ?xs' (Decoder_advance this0 ((i + 1 + 7) div 8)) =
     Some (map (\<lambda>j. if i + 1 \<le> j \<and> j < l
                     then VBool (bit (?BS ! (j div 8)) (j mod 8)) else ?xs' ! j)
             [0..<length ?xs'],
           Decoder_advance this0 ((l + 7) div 8))"
    using Suc.prems(1,3) i b' by (intro Suc.hyps(1) [OF m]) simp_all
  have same: "map (\<lambda>j. if i + 1 \<le> j \<and> j < l
                     then VBool (bit (?BS ! (j div 8)) (j mod 8)) else ?xs' ! j)
             [0..<length ?xs'] =
        map (\<lambda>j. if i \<le> j \<and> j < l
                     then VBool (bit (?BS ! (j div 8)) (j mod 8)) else xs ! j)
             [0..<length xs]"
    using i ixs by (auto simp: nth_list_update)
  show ?case
    using ih [unfolded same]
    by (simp add: bool_loop_step [where reserve = Decoder_reserve, OF i ixs rd])
qed


lemma same_read_None: "same_read d r None None"
  by (simp add: same_read_def)

lemma sim_bool_loop:
  "sim d r \<Longrightarrow>
   same_read d r (bool_loop Decoder_reserve i l b xs d) (bool_loop decoderReader_reserve i l b xs r)"
proof (induction "l - i" arbitrary: i b xs d r)
  case 0
  then show ?case by (simp add: bool_loop_done same_read_return)
next
  case (Suc m)
  then have i: "i < l" by simp
  have m: "m = l - (i + 1)" using Suc.hyps(2) by simp
  have first: "same_read d r (if i mod 8 = 0 then Decoder_reserve d 1 else Some (b, d))
      (if i mod 8 = 0 then decoderReader_reserve r 1 else Some (b, r))"
    using sim_reserve [OF Suc.prems] by (simp add: same_read_return)
  let ?body = "\<lambda>loop (b' :: byte list). if i < length xs
           then loop (i + 1) l b' (xs[i := VBool (b' ! 0 AND push_bit (i mod 8) 1 \<noteq> 0)])
           else (\<lambda>this'. None)"
  have eq1: "bool_loop Decoder_reserve i l b xs d =
     (if i mod 8 = 0 then Decoder_reserve d 1 else Some (b, d)) \<bind>
        (\<lambda>(b', this'). ?body (bool_loop Decoder_reserve) b' this')"
    using i by (subst bool_loop.simps) (simp add: Let_def)
  have eq2: "bool_loop decoderReader_reserve i l b xs r =
     (if i mod 8 = 0 then decoderReader_reserve r 1 else Some (b, r)) \<bind>
        (\<lambda>(b', this'). ?body (bool_loop decoderReader_reserve) b' this')"
    using i by (subst bool_loop.simps) (simp add: Let_def)
  show ?case
    unfolding eq1 eq2
  proof (rule same_read_bind [OF first])
    fix b' :: "byte list" and n :: nat
    show "same_read (Decoder_advance d n) (decoderReader_advance r n)
       (?body (bool_loop Decoder_reserve) b' (Decoder_advance d n))
       (?body (bool_loop decoderReader_reserve) b' (decoderReader_advance r n))"
      using Suc.hyps(1) [OF m sim_advance [OF Suc.prems]] by (simp add: same_read_None)
  qed
qed

lemma same_read_cong_result:
  "same_read d r x y \<Longrightarrow> same_read d r (map_option (\<lambda>(a, s). (f a, s)) x) (map_option (\<lambda>(a, s). (f a, s)) y)"
  by (auto simp: same_read_def split: option.splits)

lemma sim_boolArray:
  assumes "sim d r"
  shows "same_read d r (Decoder_boolArray t v d) (decoderReader_boolArray t v r)"
proof (cases "isBoolSeq t")
  case False
  then show ?thesis
    by (simp add: Decoder_boolArray_def decoderReader_boolArray_def same_read_return)
next
  case True
  have "same_read d r
     (Decoder_Uvarint d \<bind> (\<lambda>((l', k), this1).
        let l = sint l' in elems v \<bind> (\<lambda>xs.
          let xs' = (if isSlice t \<and> l > 0 then replicate (nat l) (VBool False) else xs) in
          bool_loop Decoder_reserve 0 (nat l) [] xs' this1 \<bind> (\<lambda>(ys, this2).
            Some ((sizeofBoolArray l, with_elems v ys), this2)))))
     (decoderReader_Uvarint r \<bind> (\<lambda>((l', k), this1).
        let l = sint l' in elems v \<bind> (\<lambda>xs.
          let xs' = (if isSlice t \<and> l > 0 then replicate (nat l) (VBool False) else xs) in
          bool_loop decoderReader_reserve 0 (nat l) [] xs' this1 \<bind> (\<lambda>(ys, this2).
            Some ((sizeofBoolArray l, with_elems v ys), this2)))))"
  proof (rule same_read_bind [OF sim_Uvarint [OF assms]], goal_cases)
    case (1 a n)
    obtain l' k where a: "a = (l', k)" by (cases a)
    show ?case
    proof (cases "elems v")
      case None
      then show ?thesis by (simp add: a same_read_None)
    next
      case (Some xs)
      let ?xs' = "if isSlice t \<and> sint l' > 0 then replicate (nat (sint l')) (VBool False) else xs"
      have "same_read (Decoder_advance d n) (decoderReader_advance r n)
          (bool_loop Decoder_reserve 0 (nat (sint l')) [] ?xs' (Decoder_advance d n) \<bind>
             (\<lambda>(ys, this2). Some ((sizeofBoolArray (sint l'), with_elems v ys), this2)))
          (bool_loop decoderReader_reserve 0 (nat (sint l')) [] ?xs' (decoderReader_advance r n) \<bind>
             (\<lambda>(ys, this2). Some ((sizeofBoolArray (sint l'), with_elems v ys), this2)))"
        by (rule same_read_bind [OF sim_bool_loop [OF sim_advance [OF assms]]])
           (simp add: same_read_return)
      then show ?thesis
        using Some by (simp add: a Let_def)
    qed
  qed
  then show ?thesis
    using True by (simp add: Decoder_boolArray_def decoderReader_boolArray_def)
qed

lemma unpack_bools_eq:
  assumes "l \<le> length xs"
  shows "map (\<lambda>j. if 0 \<le> j \<and> j < l then VBool (bit (bs ! (j div 8)) (j mod 8)) else xs ! j)
           [0..<length xs] = unpack_bools bs l @ drop l xs"
  using assms by (intro nth_equalityI) (auto simp: unpack_bools_def nth_append)

lemma Decoder_boolArray_bits:
  assumes "isBoolSeq t" and "elems v = Some xs"
    and "Decoder_Uvarint this = Some ((c, k), this1)" and "0 \<le> sint c" and "l = nat (sint c)"
    and "isSlice t \<or> l \<le> length xs" and "(l + 7) div 8 \<le> length (Decoder_rest this1)"
  shows "Decoder_boolArray t v this =
     Some ((sizeofBoolArray (sint c),
            with_elems v (unpack_bools (Decoder_rest this1) l @
                          (if isSlice t \<and> 0 < l then [] else drop l xs))),
           Decoder_advance this1 ((l + 7) div 8))"
proof -
  let ?xs' = "if isSlice t \<and> sint c > 0 then replicate (nat (sint c)) (VBool False) else xs"
  have len: "l \<le> length ?xs'"
    using assms(4,5,6) by auto
  have "bool_loop Decoder_reserve 0 l [] ?xs' (Decoder_advance this1 ((0 + 7) div 8)) =
     Some (map (\<lambda>j. if 0 \<le> j \<and> j < l
                     then VBool (bit (Decoder_rest this1 ! (j div 8)) (j mod 8)) else ?xs' ! j)
             [0..<length ?xs'],
           Decoder_advance this1 ((l + 7) div 8))"
    using len assms(7) by (intro bool_loop_Decoder) simp_all
  then have loop: "bool_loop Decoder_reserve 0 l [] ?xs' this1 =
     Some (unpack_bools (Decoder_rest this1) l @ drop l ?xs', Decoder_advance this1 ((l + 7) div 8))"
    unfolding unpack_bools_eq [OF len] by simp
  have d: "drop l ?xs' = (if isSlice t \<and> 0 < l then [] else drop l xs)"
    using assms(4,5) by auto
  show ?thesis
    using assms(1,2,3) loop [unfolded d] assms(5)
    by (simp add: Decoder_boolArray_def Let_def)
qed


lemma decoderReader_boolArray_bits:
  assumes "isBoolSeq t" and "elems v = Some xs"
    and "decoderReader_Uvarint this = Some ((c, k), this1)" and "0 \<le> sint c"
    and "l = nat (sint c)"
    and "isSlice t \<or> l \<le> length xs" and "(l + 7) div 8 \<le> length (rd_r this1)"
  shows "decoderReader_boolArray t v this =
     Some ((sizeofBoolArray (sint c),
            with_elems v (unpack_bools (rd_r this1) l @
                          (if isSlice t \<and> 0 < l then [] else drop l xs))),
           decoderReader_advance this1 ((l + 7) div 8))"
proof -
  let ?d = "as_Decoder this"
  from sim_Uvarint [OF sim_as_Decoder [of this]] assms(3)
  obtain n where n: "n \<le> length (Decoder_rest ?d)"
    "Decoder_Uvarint ?d = Some ((c, k), Decoder_advance ?d n)"
    "this1 = decoderReader_advance this n"
    by (auto elim: same_read_SomeE)
  have r: "Decoder_rest (Decoder_advance ?d n) = rd_r this1"
    using n(3) by simp
  have r': "drop n (rd_r this) = rd_r this1"
    using n(3) by simp
  have "Decoder_boolArray t v ?d =
     Some ((sizeofBoolArray (sint c),
            with_elems v (unpack_bools (Decoder_rest (Decoder_advance ?d n)) l @
                          (if isSlice t \<and> 0 < l then [] else drop l xs))),
           Decoder_advance (Decoder_advance ?d n) ((l + 7) div 8))"
    using assms(1,2) n(2) assms(4,5,6) assms(7) [folded r]
    by (rule Decoder_boolArray_bits)
  then have "Decoder_boolArray t v ?d =
     Some ((sizeofBoolArray (sint c),
            with_elems v (unpack_bools (rd_r this1) l @
                          (if isSlice t \<and> 0 < l then [] else drop l xs))),
           Decoder_advance ?d (n + (l + 7) div 8))"
    by (simp add: r')
  moreover have "n + (l + 7) div 8 \<le> length (Decoder_rest ?d)"
    using n(1,3) assms(7) by simp
  ultimately have "decoderReader_boolArray t v this =
     Some ((sizeofBoolArray (sint c),
            with_elems v (unpack_bools (rd_r this1) l @
                          (if isSlice t \<and> 0 < l then [] else drop l xs))),
           decoderReader_advance this (n + (l + 7) div 8))"
    using sim_boolArray [OF sim_as_Decoder [of this], of t v]
    by (intro same_read_SomeD [where d = ?d]) simp_all
  then show ?thesis
    using n(3) by simp
qed

text \<open>
  C8. \<open>boolArray\<close> of either decoder, on a slice or array of bool: after the uvarint
  element count \<open>l\<close> it reads exactly \<open>ceil(l/8)\<close> data bytes (none for \<open>l = 0\<close>), and
  element \<open>i\<close> is bit \<open>i mod 8\<close> of data byte \<open>i div 8\<close> (\<open>unpack_bools\<close>). The count is
  taken as an \<open>int\<close> that is not negative, the data bytes are there, and an array has at
  least \<open>l\<close> slots; a slice becomes these \<open>l\<close> elements when \<open>l > 0\<close>, and in an array
  or at \<open>l = 0\<close> the elements from \<open>l\<close> on stay as they were.
\<close>

theorem boolArray_bits:
  "(isBoolSeq t \<and> elems v = Some xs \<and> Decoder_Uvarint d = Some ((c, k), d1) \<and> 0 \<le> sint c \<and>
    l = nat (sint c) \<and> (isSlice t \<or> l \<le> length xs) \<and>
    (l + 7) div 8 \<le> length (Decoder_rest d1) \<longrightarrow>
      Decoder_boolArray t v d =
        Some ((sizeofBoolArray (sint c),
               with_elems v (unpack_bools (Decoder_rest d1) l @
                             (if isSlice t \<and> 0 < l then [] else drop l xs))),
              Decoder_advance d1 ((l + 7) div 8))) \<and>
   (isBoolSeq t \<and> elems v = Some xs \<and> decoderReader_Uvarint r = Some ((c, k), r1) \<and>
    0 \<le> sint c \<and> l = nat (sint c) \<and> (isSlice t \<or> l \<le> length xs) \<and>
    (l + 7) div 8 \<le> length (rd_r r1) \<longrightarrow>
      decoderReader_boolArray t v r =
        Some ((sizeofBoolArray (sint c),
               with_elems v (unpack_bools (rd_r r1) l @
                             (if isSlice t \<and> 0 < l then [] else drop l xs))),
              decoderReader_advance r1 ((l + 7) div 8)))"
  using Decoder_boolArray_bits [of t v xs d c k d1 l]
    decoderReader_boolArray_bits [of t v xs r c k r1 l]
  by blast

lemma decoderReader_Uvarint_small:
  "rd_r this = b # bs \<Longrightarrow> b < 0x80 \<Longrightarrow>
   decoderReader_Uvarint this = Some ((ucast b, 1), decoderReader_advance this 1)"
  using Decoder_Uvarint_small [of "as_Decoder this" b bs]
    sim_Uvarint [OF sim_as_Decoder [of this]]
  by (intro same_read_SomeD [where d = "as_Decoder this"]) simp_all

theorem boolArray_bits_witness:
  "Decoder_boolArray (TSlice TBool) (VSlice []) (NewDecoderEndian [2, 2, 7] LittleEndian) =
     Some ((2, VSlice [VBool False, VBool True]),
       \<lparr>buff = [2, 2, 7], pos = 2, endian = LittleEndian, reader = None\<rparr>) \<and>
   decoderReader_boolArray (TArray 3 TBool) (VArray [VBool True, VBool True, VBool True])
     (NewDecoderReader [2, 2, 7] LittleEndian) =
     Some ((2, VArray [VBool False, VBool True, VBool True]), NewDecoderReader [7] LittleEndian) \<and>
   Decoder_boolArray (TSlice TBool) (VSlice [VBool True]) (NewDecoderEndian [0, 7] LittleEndian) =
     Some ((1, VSlice [VBool True]),
       \<lparr>buff = [0, 7], pos = 1, endian = LittleEndian, reader = None\<rparr>)"
proof -
  let ?D = "NewDecoderEndian [2, 2, 7] LittleEndian"
  let ?R = "NewDecoderReader [2, 2, 7] LittleEndian"
  let ?E = "NewDecoderEndian [0, 7] LittleEndian"
  have rD: "Decoder_rest ?D = [2, 2, 7]" and rR: "rd_r ?R = [2, 2, 7]"
    and rE: "Decoder_rest ?E = [0, 7]"
    by (simp_all add: Decoder_rest_def NewDecoderEndian_def NewDecoderReader_def)
  have uD: "Decoder_Uvarint ?D = Some ((2, 1), Decoder_advance ?D 1)"
    using Decoder_Uvarint_small [OF rD] by simp
  have uR: "decoderReader_Uvarint ?R = Some ((2, 1), decoderReader_advance ?R 1)"
    using decoderReader_Uvarint_small [OF rR] by simp
  have uE: "Decoder_Uvarint ?E = Some ((0, 1), Decoder_advance ?E 1)"
    using Decoder_Uvarint_small [OF rE] by simp
  have s: "sizeofBoolArray 2 = 2" "sizeofBoolArray 0 = 1"
    by (simp_all add: sizeofBoolArray_def SizeofUvarint_def PutUvarint.simps)
  have b: "unpack_bools [2, 7] (Suc (Suc 0)) = [VBool False, VBool True]"
    "unpack_bools bs 0 = []" for bs
    by (simp_all add: unpack_bools_def)
  have 1: "Decoder_boolArray (TSlice TBool) (VSlice []) ?D =
      Some ((2, VSlice [VBool False, VBool True]), Decoder_advance ?D 2)"
    using boolArray_bits [of "TSlice TBool" "VSlice []" "[]" ?D 2 1 "Decoder_advance ?D 1" 2] uD
    by (simp add: isBoolSeq_def isSlice_def elems_def with_elems_def rD s b numeral_2_eq_2)
  have 2: "decoderReader_boolArray (TArray 3 TBool) (VArray [VBool True, VBool True, VBool True]) ?R =
      Some ((2, VArray [VBool False, VBool True, VBool True]), decoderReader_advance ?R 2)"
    using boolArray_bits [of "TArray 3 TBool" "VArray [VBool True, VBool True, VBool True]"
        "[VBool True, VBool True, VBool True]" _ 2 1 _ 2 ?R "decoderReader_advance ?R 1"] uR
    by (simp add: isBoolSeq_def isSlice_def elems_def with_elems_def rR s b numeral_2_eq_2)
  have 3: "Decoder_boolArray (TSlice TBool) (VSlice [VBool True]) ?E =
      Some ((1, VSlice [VBool True]), Decoder_advance ?E 1)"
    using boolArray_bits [of "TSlice TBool" "VSlice [VBool True]" "[VBool True]" ?E 0 1
        "Decoder_advance ?E 1" 0] uE
    by (simp add: isBoolSeq_def isSlice_def elems_def with_elems_def rE s b)
  from 1 2 3 show ?thesis
    by (simp add: Decoder_advance_def decoderReader_advance_def NewDecoderEndian_def
        NewDecoderReader_def)
qed

section \<open>A count beyond the capacity of an array\<close>

text \<open>
  C5. A bool sequence of count 5 (the bytes \<open>05 1F\<close>) decoded into an array of 3 bools:
  \<open>boolArray\<close> runs its loop up to the count and \<open>v.Index(3)\<close> panics, in \<open>Decoder\<close> and in
  \<open>decoderReader\<close>; nothing is skipped. The general branch of \<open>value\<close> does what the
  claim says: 5 bytes decoded into an array of 3 \<open>uint8\<close> give the first 3 values, and
  the decoder ends behind all 5 elements.
\<close>

theorem bool_array_beyond_capacity_panics:
  "Decoder_value example_pkg (TArray 3 TBool) (VArray [VBool False, VBool False, VBool False])
     (NewDecoderEndian [5, 0x1F] LittleEndian) = None \<and>
   decoderReader_value (TArray 3 TBool) (VArray [VBool False, VBool False, VBool False])
     (NewDecoderReader [5, 0x1F] LittleEndian) = None \<and>
   Decoder_value example_pkg (TArray 3 TUint8) (VArray [VUint8 0, VUint8 0, VUint8 0])
     (NewDecoderEndian [5, 1, 2, 3, 4, 5] LittleEndian) =
     Some ((None, VArray [VUint8 1, VUint8 2, VUint8 3]),
       \<lparr>buff = [5, 1, 2, 3, 4, 5], pos = 6, endian = LittleEndian, reader = None\<rparr>)"
proof -
  let ?D = "NewDecoderEndian [5, 0x1F] LittleEndian"
  let ?R = "NewDecoderReader [5, 0x1F] LittleEndian"
  let ?E = "NewDecoderEndian [5, 1, 2, 3, 4, 5] LittleEndian"
  have uD: "Decoder_Uvarint ?D = Some ((5, 1), Decoder_advance ?D 1)"
    using Decoder_Uvarint_small [of ?D 5 "[0x1F]"]
    by (simp add: Decoder_rest_def NewDecoderEndian_def)
  have uR: "decoderReader_Uvarint ?R = Some ((5, 1), decoderReader_advance ?R 1)"
    using decoderReader_Uvarint_small [of ?R 5 "[0x1F]"]
    by (simp add: NewDecoderReader_def)
  have uE: "Decoder_Uvarint ?E = Some ((5, 1), Decoder_advance ?E 1)"
    using Decoder_Uvarint_small [of ?E 5 "[1, 2, 3, 4, 5]"]
    by (simp add: Decoder_rest_def NewDecoderEndian_def)
  have lD: "bool_loop Decoder_reserve 0 5 [] [VBool False, VBool False, VBool False]
      (Decoder_advance ?D (Suc 0)) = None"
    by (simp add: bool_loop.simps Decoder_reserve_def coder_reserve_def Decoder_advance_def
        NewDecoderEndian_def)
  have lR: "bool_loop decoderReader_reserve 0 5 [] [VBool False, VBool False, VBool False]
      (decoderReader_advance ?R (Suc 0)) = None"
    by (simp add: bool_loop.simps decoderReader_reserve_def decoderReader_advance_def
        NewDecoderReader_def)
  have lE: "elems_loop (Decoder_value example_pkg TUint8) (Decoder_skipByType example_pkg TUint8)
      0 5 [VUint8 0, VUint8 0, VUint8 0] (Decoder_advance ?E (Suc 0)) =
      Some ([VUint8 1, VUint8 2, VUint8 3], Decoder_advance ?E 6)"
    by (simp add: elems_loop.simps Decoder_skipByType.simps Decoder_Skip_def
        Decoder_Uint8_def Decoder_reserve_def coder_reserve_def Decoder_advance_def
        NewDecoderEndian_def)
  have 1: "Decoder_value example_pkg (TArray 3 TBool)
      (VArray [VBool False, VBool False, VBool False]) ?D = None"
    by (simp add: Decoder_sequence_def Decoder_boolArray_def isBoolSeq_def isSlice_def uD
        elems_def lD)
  have 2: "decoderReader_value (TArray 3 TBool)
      (VArray [VBool False, VBool False, VBool False]) ?R = None"
    by (simp add: decoderReader_sequence_def decoderReader_boolArray_def isBoolSeq_def
        isSlice_def uR elems_def lR)
  have 3: "Decoder_value example_pkg (TArray 3 TUint8) (VArray [VUint8 0, VUint8 0, VUint8 0]) ?E =
     Some ((None, VArray [VUint8 1, VUint8 2, VUint8 3]), Decoder_advance ?E 6)"
    by (simp add: Decoder_sequence_def Decoder_boolArray_def isBoolSeq_def isSlice_def uE
        elems_def with_elems_def lE)
  have 4: "Decoder_advance ?E 6 =
      \<lparr>buff = [5, 1, 2, 3, 4, 5], pos = 6, endian = LittleEndian, reader = None\<rparr>"
    by (simp add: Decoder_advance_def NewDecoderEndian_def)
  from 1 2 3 show ?thesis unfolding 4 by blast
qed

section \<open>Skipping and decoding\<close>
































section \<open>The two decoders on the same bytes\<close>

lemma sim_read:
  assumes "sim d r"
  shows "same_read d r (Decoder_reserve d k \<bind> (\<lambda>(b, d'). Some (F b, d')))
     (decoderReader_reserve r k \<bind> (\<lambda>(b, r'). Some (F b, r')))"
  by (rule same_read_bind [OF sim_reserve [OF assms]]) (simp add: same_read_return)

lemma sim_Bool: "sim d r \<Longrightarrow> same_read d r (Decoder_Bool d) (decoderReader_Bool r)"
  unfolding Decoder_Bool_def decoderReader_Bool_def by (rule sim_read)

lemma sim_Uint16: "sim d r \<Longrightarrow> same_read d r (Decoder_Uint16 d) (decoderReader_Uint16 r)"
  unfolding Decoder_Uint16_def decoderReader_Uint16_def
  using sim_read [of d r 2 "Endian_Uint16 (endian d)"] by (simp add: sim_def)

lemma sim_Uint32: "sim d r \<Longrightarrow> same_read d r (Decoder_Uint32 d) (decoderReader_Uint32 r)"
  unfolding Decoder_Uint32_def decoderReader_Uint32_def
  using sim_read [of d r 4 "Endian_Uint32 (endian d)"] by (simp add: sim_def)

lemma sim_Uint64: "sim d r \<Longrightarrow> same_read d r (Decoder_Uint64 d) (decoderReader_Uint64 r)"
  unfolding Decoder_Uint64_def decoderReader_Uint64_def
  using sim_read [of d r 8 "Endian_Uint64 (endian d)"] by (simp add: sim_def)

lemma sim_store:
  assumes "same_read d r x y"
  shows "same_read d r (x \<bind> (\<lambda>(a, d'). Some (C a, d'))) (y \<bind> (\<lambda>(a, r'). Some (C a, r')))"
  by (rule same_read_bind [OF assms]) (simp add: same_read_return)

lemma sim_pair:
  assumes "\<And>d r. sim d r \<Longrightarrow> same_read d r (f d) (g r)" and "sim d r"
  shows "same_read d r
     (f d \<bind> (\<lambda>(a, d1). f d1 \<bind> (\<lambda>(b, d2). Some (C a b, d2))))
     (g r \<bind> (\<lambda>(a, r1). g r1 \<bind> (\<lambda>(b, r2). Some (C a b, r2))))"
proof (rule same_read_bind [OF assms(1) [OF assms(2)]])
  fix a n
  show "same_read (Decoder_advance d n) (decoderReader_advance r n)
     (f (Decoder_advance d n) \<bind> (\<lambda>(b, d2). Some (C a b, d2)))
     (g (decoderReader_advance r n) \<bind> (\<lambda>(b, r2). Some (C a b, r2)))"
    by (rule sim_store [OF assms(1) [OF sim_advance [OF assms(2)]]])
qed

lemma sim_String:
  assumes "sim d r"
  shows "same_read d r (Decoder_String d) (decoderReader_String r)"
  unfolding Decoder_String_def decoderReader_String_def
proof (rule same_read_bind [OF sim_Uvarint [OF assms]], goal_cases)
  case (1 a n)
  obtain c k where a: "a = (c, k)" by (cases a)
  have "same_read (Decoder_advance d n) (decoderReader_advance r n)
     (Decoder_reserve (Decoder_advance d n) (sint c) \<bind> (\<lambda>(b, d'). Some (b, d')))
     (decoderReader_reserve (decoderReader_advance r n) (sint c) \<bind> (\<lambda>(b, r'). Some (b, r')))"
    by (rule sim_read [OF sim_advance [OF assms]])
  then show ?case
    by (simp add: a)
qed

lemma sim_value_fixed:
  assumes "0 < fixTypeSize t" and "sim d r"
  shows "same_read d r (Decoder_value P t v d) (decoderReader_value t v r)"
  using assms(1)
proof (cases t)
  case TComplex64
  have "same_read d r
     (Decoder_Uint32 d \<bind> (\<lambda>(a, d1). Decoder_Uint32 d1 \<bind>
        (\<lambda>(b, d2). Some ((None, VComplex64 (via_float64 a) (via_float64 b)), d2))))
     (decoderReader_Uint32 r \<bind> (\<lambda>(a, r1). decoderReader_Uint32 r1 \<bind>
        (\<lambda>(b, r2). Some ((None, VComplex64 (via_float64 a) (via_float64 b)), r2))))"
    by (rule sim_pair [OF sim_Uint32 assms(2)])
  then show ?thesis
    by (simp add: TComplex64 Decoder_Complex64_def Decoder_Float32_def decoderReader_Float32_def
        case_prod_unfold)
next
  case TComplex128
  have "same_read d r
     (Decoder_Uint64 d \<bind> (\<lambda>(a, d1). Decoder_Uint64 d1 \<bind>
        (\<lambda>(b, d2). Some ((None, VComplex128 a b), d2))))
     (decoderReader_Uint64 r \<bind> (\<lambda>(a, r1). decoderReader_Uint64 r1 \<bind>
        (\<lambda>(b, r2). Some ((None, VComplex128 a b), r2))))"
    by (rule sim_pair [OF sim_Uint64 assms(2)])
  then show ?thesis
    by (simp add: TComplex128 Decoder_Complex128_def Decoder_Float64_def decoderReader_Float64_def
        case_prod_unfold)
qed (simp_all add: sim_store sim_Bool sim_Uint8 sim_Uint16 sim_Uint32 sim_Uint64 assms(2)
      Decoder_Int8_def decoderReader_Int8_def Decoder_Int16_def decoderReader_Int16_def
      Decoder_Int32_def decoderReader_Int32_def Decoder_Int64_def decoderReader_Int64_def
      Decoder_Float32_def decoderReader_Float32_def Decoder_Float64_def decoderReader_Float64_def)

lemma sim_value_String:
  "sim d r \<Longrightarrow> same_read d r (Decoder_value P TString v d) (decoderReader_value TString v r)"
  by (simp add: sim_store sim_String)

lemma same_read_bind_drop:
  assumes "same_read d r (cursor_only x) (cursor_only y)"
    and "\<And>n. n \<le> length (Decoder_rest d) \<Longrightarrow>
           same_read (Decoder_advance d n) (decoderReader_advance r n)
             (f (Decoder_advance d n)) (g (decoderReader_advance r n))"
  shows "same_read d r (x \<bind> (\<lambda>(a, d'). f d')) (y \<bind> (\<lambda>(a, r'). g r'))"
proof -
  have x: "x \<bind> (\<lambda>(a, d'). f d') = cursor_only x \<bind> (\<lambda>(u, d'). f d')"
    by (cases x) (auto simp: cursor_only_def)
  have y: "y \<bind> (\<lambda>(a, r'). g r') = cursor_only y \<bind> (\<lambda>(u, r'). g r')"
    by (cases y) (auto simp: cursor_only_def)
  show ?thesis
    unfolding x y by (rule same_read_bind [OF assms(1)]) (rule assms(2))
qed

lemma sim_elems_loop:
  assumes f: "\<And>x d r. sim d r \<Longrightarrow> same_read d r (f x d) (f' x r)"
    and g: "sz \<le> length xs \<or>
       (\<forall>d r. sim d r \<longrightarrow> same_read d r (cursor_only (g d)) (cursor_only (g' r)))"
    and s: "sim d r"
  shows "same_read d r (elems_loop f g i sz xs d) (elems_loop f' g' i sz xs r)"
  using g s
proof (induction "sz - i" arbitrary: i xs d r)
  case 0
  then show ?case by (simp add: elems_loop_done same_read_return)
next
  case (Suc m)
  from Suc.hyps(2) have i: "i < sz" by simp
  have m: "m = sz - (i + 1)" using Suc.hyps(2) by simp
  show ?case
  proof (cases "i < length xs")
    case True
    have eq1: "elems_loop f g i sz xs d =
        f (xs ! i) d \<bind> (\<lambda>(a, this'). elems_loop f g (i + 1) sz (xs[i := snd a]) this')"
      using i True by (subst elems_loop.simps) (simp add: case_prod_unfold)
    have eq2: "elems_loop f' g' i sz xs r =
        f' (xs ! i) r \<bind> (\<lambda>(a, this'). elems_loop f' g' (i + 1) sz (xs[i := snd a]) this')"
      using i True by (subst elems_loop.simps) (simp add: case_prod_unfold)
    show ?thesis
      unfolding eq1 eq2
    proof (rule same_read_bind [OF f [OF Suc.prems(2)]], goal_cases)
      case (1 a n)
      show ?case
        using Suc.prems(1)
        by (intro Suc.hyps(1) [OF m] sim_advance [OF Suc.prems(2)]) simp
    qed
  next
    case False
    with i Suc.prems(1) have g': "\<forall>d r. sim d r \<longrightarrow>
        same_read d r (cursor_only (g d)) (cursor_only (g' r))"
      by auto
    have eq1: "elems_loop f g i sz xs d =
        g d \<bind> (\<lambda>(a, this'). elems_loop f g (i + 1) sz xs this')"
      using i False by (subst elems_loop.simps) simp
    have eq2: "elems_loop f' g' i sz xs r =
        g' r \<bind> (\<lambda>(a, this'). elems_loop f' g' (i + 1) sz xs this')"
      using i False by (subst elems_loop.simps) simp
    show ?thesis
      unfolding eq1 eq2
    proof (rule same_read_bind_drop, goal_cases)
      case 1
      show ?case using g' Suc.prems(2) by blast
    next
      case (2 n)
      show ?case
        using g' by (intro Suc.hyps(1) [OF m] sim_advance [OF Suc.prems(2)]) simp
    qed
  qed
qed

lemma sim_map_loop:
  assumes fk: "\<And>d r. sim d r \<Longrightarrow> same_read d r (fk d) (fk' r)"
    and fv: "\<And>d r. sim d r \<Longrightarrow> same_read d r (fv d) (fv' r)"
  shows "sim d r \<Longrightarrow> same_read d r (map_loop fk fv n m d) (map_loop fk' fv' n m r)"
proof (induction n arbitrary: m d r)
  case 0
  then show ?case by (simp add: same_read_return)
next
  case (Suc n)
  have eq1: "map_loop fk fv (Suc n) m d =
      fk d \<bind> (\<lambda>(a, this1). fv this1 \<bind>
         (\<lambda>(b, this2). map_loop fk fv n (AList.update (snd a) (snd b) m) this2))"
    by (simp add: case_prod_unfold)
  have eq2: "map_loop fk' fv' (Suc n) m r =
      fk' r \<bind> (\<lambda>(a, this1). fv' this1 \<bind>
         (\<lambda>(b, this2). map_loop fk' fv' n (AList.update (snd a) (snd b) m) this2))"
    by (simp add: case_prod_unfold)
  show ?case
    unfolding eq1 eq2
  proof (rule same_read_bind [OF fk [OF Suc.prems]], goal_cases)
    case (1 a k)
    have s1: "sim (Decoder_advance d k) (decoderReader_advance r k)"
      by (rule sim_advance [OF Suc.prems])
    show ?case
    proof (rule same_read_bind [OF fv [OF s1]], goal_cases)
      case (1 b j)
      show ?case
        by (rule Suc.IH [OF sim_advance [OF s1]])
    qed
  qed
qed

lemma sim_struct_loop:
  assumes "\<forall>p \<in> set fs. \<forall>x d r. sim d r \<longrightarrow> same_read d r (F (snd p) x d) (F' (snd p) x r)"
    and "sim d r"
  shows "same_read d r (struct_loop (map (\<lambda>(valid, ft). (valid, F ft)) fs) i xs d)
     (struct_loop (map (\<lambda>(valid, ft). (valid, F' ft)) fs) i xs r)"
  using assms
proof (induction fs arbitrary: i xs d r)
  case Nil
  then show ?case by (simp add: same_read_return)
next
  case (Cons p fs)
  obtain valid ft where p: "p = (valid, ft)" by (cases p)
  have rest: "\<forall>p \<in> set fs. \<forall>x d r. sim d r \<longrightarrow>
      same_read d r (F (snd p) x d) (F' (snd p) x r)"
    using Cons.prems(1) by simp
  have f: "same_read d r (F ft (xs ! i) d) (F' ft (xs ! i) r)"
    using Cons.prems p by simp
  show ?case
  proof (cases "i < length xs \<and> valid")
    case False
    then show ?thesis
      using Cons.IH [OF rest Cons.prems(2)] by (auto simp: p same_read_None)
  next
    case True
    have eq1: "struct_loop (map (\<lambda>(valid, ft). (valid, F ft)) (p # fs)) i xs d =
        F ft (xs ! i) d \<bind> (\<lambda>(a, this').
          struct_loop (map (\<lambda>(valid, ft). (valid, F ft)) fs) (i + 1) (xs[i := snd a]) this')"
      using True by (simp add: p case_prod_unfold)
    have eq2: "struct_loop (map (\<lambda>(valid, ft). (valid, F' ft)) (p # fs)) i xs r =
        F' ft (xs ! i) r \<bind> (\<lambda>(a, this').
          struct_loop (map (\<lambda>(valid, ft). (valid, F' ft)) fs) (i + 1) (xs[i := snd a]) this')"
      using True by (simp add: p case_prod_unfold)
    show ?thesis
      unfolding eq1 eq2
    proof (rule same_read_bind [OF f], goal_cases)
      case (1 a n)
      show ?case
        by (rule Cons.IH [OF rest sim_advance [OF Cons.prems(2)]])
    qed
  qed
qed

lemma sim_skip_loop:
  assumes f: "\<And>d r. sim d r \<Longrightarrow> same_read d r (f d) (f' r)"
  shows "sim d r \<Longrightarrow> same_read d r (skip_loop f n sm d) (skip_loop f' n sm r)"
proof (induction n arbitrary: sm d r)
  case 0
  then show ?case by (simp add: same_read_return)
next
  case (Suc n)
  show ?case
    unfolding skip_loop.simps
  proof (rule same_read_bind [OF f [OF Suc.prems]], goal_cases)
    case (1 a k)
    show ?case
      using Suc.IH [OF sim_advance [OF Suc.prems], where sm = "sm + a"]
      by (simp add: same_read_return)
  qed
qed

lemma sim_skip_map_loop:
  assumes fk: "\<And>d r. sim d r \<Longrightarrow> same_read d r (fk d) (fk' r)"
    and fv: "\<And>d r. sim d r \<Longrightarrow> same_read d r (fv d) (fv' r)"
  shows "sim d r \<Longrightarrow> same_read d r (skip_map_loop fk fv n sm d) (skip_map_loop fk' fv' n sm r)"
proof (induction n arbitrary: sm d r)
  case 0
  then show ?case by (simp add: same_read_return)
next
  case (Suc n)
  show ?case
    unfolding skip_map_loop.simps
  proof (rule same_read_bind [OF fk [OF Suc.prems]], goal_cases)
    case (1 a k)
    have s1: "sim (Decoder_advance d k) (decoderReader_advance r k)"
      by (rule sim_advance [OF Suc.prems])
    show ?case
    proof (rule same_read_bind [OF fv [OF s1]], goal_cases)
      case (1 b j)
      show ?case
        by (rule Suc.IH [OF sim_advance [OF s1]])
    qed
  qed
qed

lemma sim_skip_fields:
  assumes "\<forall>p \<in> set fs. \<forall>d r. sim d r \<longrightarrow> same_read d r (G (snd p) d) (G' (snd p) r)"
    and "sim d r"
  shows "same_read d r (skip_fields (map (\<lambda>(valid, ft). G ft) fs) sm d)
     (skip_fields (map (\<lambda>(valid, ft). G' ft) fs) sm r)"
  using assms
proof (induction fs arbitrary: sm d r)
  case Nil
  then show ?case by (simp add: same_read_return)
next
  case (Cons p fs)
  obtain valid ft where p: "p = (valid, ft)" by (cases p)
  have rest: "\<forall>p \<in> set fs. \<forall>d r. sim d r \<longrightarrow> same_read d r (G (snd p) d) (G' (snd p) r)"
    using Cons.prems(1) by simp
  have g: "same_read d r (G ft d) (G' ft r)"
    using Cons.prems p by simp
  have eq1: "skip_fields (map (\<lambda>(valid, ft). G ft) (p # fs)) sm d =
      G ft d \<bind> (\<lambda>(s, this'). if s < 0 then Some (- 1, this')
         else skip_fields (map (\<lambda>(valid, ft). G ft) fs) (sm + s) this')"
    by (simp add: p)
  have eq2: "skip_fields (map (\<lambda>(valid, ft). G' ft) (p # fs)) sm r =
      G' ft r \<bind> (\<lambda>(s, this'). if s < 0 then Some (- 1, this')
         else skip_fields (map (\<lambda>(valid, ft). G' ft) fs) (sm + s) this')"
    by (simp add: p)
  show ?case
    unfolding eq1 eq2
  proof (rule same_read_bind [OF g], goal_cases)
    case (1 a k)
    show ?case
      using Cons.IH [OF rest sim_advance [OF Cons.prems(2)], where sm = "sm + a"]
      by (simp add: same_read_return)
  qed
qed

lemma sim_Skip:
  assumes "sim d r"
  shows "same_read d r (Decoder_Skip d k \<bind> (\<lambda>(n, d'). Some (c, d')))
     (decoderReader_Skip r k \<bind> (\<lambda>(n, r'). Some (c, r')))"
proof -
  have 1: "Decoder_Skip d k \<bind> (\<lambda>(n, d'). Some (c, d')) =
      Decoder_reserve d k \<bind> (\<lambda>(b, d'). Some (c, d'))"
    by (cases "Decoder_reserve d k") (auto simp: Decoder_Skip_def)
  have 2: "decoderReader_Skip r k \<bind> (\<lambda>(n, r'). Some (c, r')) =
      decoderReader_reserve r k \<bind> (\<lambda>(b, r'). Some (c, r'))"
    by (cases "decoderReader_reserve r k") (auto simp: decoderReader_Skip_def)
  show ?thesis
    unfolding 1 2 by (rule sim_read [OF assms])
qed

lemma sim_skip_fixed:
  assumes "0 < fixTypeSize t" and "sim d r"
  shows "same_read d r (Decoder_skipByType P t d) (decoderReader_skipByType t r)"
  using sim_Skip [OF assms(2), of "fixTypeSize t" "fixTypeSize t"] assms(1)
  by (simp add: Decoder_skipByType.simps decoderReader_skipByType.simps)

lemma sim_skip_sequence:
  assumes f: "\<And>d r. sim d r \<Longrightarrow> same_read d r (f d) (f' r)"
    and e: "e \<noteq> TBool" and s: "sim d r"
  shows "same_read d r (Decoder_skip_sequence e f d) (decoderReader_skip_sequence e f' r)"
  unfolding Decoder_skip_sequence_def decoderReader_skip_sequence_def
proof (rule same_read_bind [OF sim_Uvarint [OF s]], goal_cases)
  case (1 a n)
  have s1: "sim (Decoder_advance d n) (decoderReader_advance r n)"
    by (rule sim_advance [OF s])
  let ?sz = "int64 (sint (fst a) * fixTypeSize e)"
  have sk: "same_read (Decoder_advance d n) (decoderReader_advance r n)
      (Decoder_Skip (Decoder_advance d n) ?sz \<bind> (\<lambda>(n, d'). Some (?sz, d')))
      (decoderReader_Skip (decoderReader_advance r n) ?sz \<bind> (\<lambda>(n, r'). Some (?sz, r')))"
    by (rule sim_Skip [OF s1])
  have lp: "same_read (Decoder_advance d n) (decoderReader_advance r n)
      (skip_loop f (nat (sint (fst a))) (snd a) (Decoder_advance d n))
      (skip_loop f' (nat (sint (fst a))) (snd a) (decoderReader_advance r n))"
    by (rule sim_skip_loop [OF f s1])
  show ?case
  proof (cases "0 < fixTypeSize e")
    case True
    then show ?thesis
      using e sk by (simp add: case_prod_unfold Let_def)
  next
    case False
    then show ?thesis
      using lp by (simp add: case_prod_unfold Let_def)
  qed
qed

lemma sim_skip:
  "skip_alike t \<Longrightarrow> sim d r \<Longrightarrow>
   same_read d r (Decoder_skipByType P t d) (decoderReader_skipByType t r)"
proof (induction t arbitrary: d r)
  case (TSlice e)
  from TSlice.prems(1) have e: "e \<noteq> TBool" "skip_alike e" by simp_all
  have "same_read d r (Decoder_skip_sequence e (Decoder_skipByType P e) d)
      (decoderReader_skip_sequence e (decoderReader_skipByType e) r)"
    by (rule sim_skip_sequence [OF TSlice.IH [OF e(2)] e(1) TSlice.prems(2)])
  then show ?case
    by (subst Decoder_skipByType.simps, subst decoderReader_skipByType.simps) simp
next
  case (TArray n e)
  from TArray.prems(1) have e: "e \<noteq> TBool" "skip_alike e" by simp_all
  have "same_read d r (Decoder_skip_sequence e (Decoder_skipByType P e) d)
      (decoderReader_skip_sequence e (decoderReader_skipByType e) r)"
    by (rule sim_skip_sequence [OF TArray.IH [OF e(2)] e(1) TArray.prems(2)])
  then show ?case
    by (subst Decoder_skipByType.simps, subst decoderReader_skipByType.simps) simp
next
  case (TMap kt vt)
  from TMap.prems(1) have c: "skip_alike kt" "skip_alike vt" by simp_all
  have "same_read d r
     (Decoder_Uvarint d \<bind> (\<lambda>(a, this1).
        skip_map_loop (Decoder_skipByType P kt) (Decoder_skipByType P vt)
          (nat (sint (fst a))) (snd a) this1))
     (decoderReader_Uvarint r \<bind> (\<lambda>(a, this1).
        skip_map_loop (decoderReader_skipByType kt) (decoderReader_skipByType vt)
          (nat (sint (fst a))) (snd a) this1))"
  proof (rule same_read_bind [OF sim_Uvarint [OF TMap.prems(2)]], goal_cases)
    case (1 a n)
    show ?case
      by (rule sim_skip_map_loop [OF TMap.IH(1) [OF c(1)] TMap.IH(2) [OF c(2)]
            sim_advance [OF TMap.prems(2)]])
  qed
  then show ?case
    by (subst Decoder_skipByType.simps, subst decoderReader_skipByType.simps)
       (simp add: case_prod_unfold Let_def)
next
  case (TStruct fs)
  from TStruct.prems(1) have c: "\<forall>p \<in> set fs. skip_alike (snd p)"
    by (auto simp: list_all_iff)
  have fields: "\<forall>p \<in> set fs. \<forall>d r. sim d r \<longrightarrow>
      same_read d r (Decoder_skipByType P (snd p) d) (decoderReader_skipByType (snd p) r)"
  proof (intro ballI allI impI)
    fix p d r
    assume p: "p \<in> set fs" and s: "sim d r"
    obtain valid ft where pp: "p = (valid, ft)" by (cases p)
    from c p pp have "skip_alike ft" by auto
    from TStruct.IH [of p ft, OF p _ this s] pp
    show "same_read d r (Decoder_skipByType P (snd p) d) (decoderReader_skipByType (snd p) r)"
      by simp
  qed
  have "same_read d r (skip_fields (map (\<lambda>(valid, ft). Decoder_skipByType P ft) fs) 0 d)
      (skip_fields (map (\<lambda>(valid, ft). decoderReader_skipByType ft) fs) 0 r)"
    by (rule sim_skip_fields [OF fields TStruct.prems(2)])
  then show ?case
    by (subst Decoder_skipByType.simps, subst decoderReader_skipByType.simps) simp
qed (simp_all add: sim_skip_fixed)

lemma sim_skip_tail0:
  assumes "0 < fixTypeSize e \<or> e = TString" and "sim d r"
  shows "same_read d r (cursor_only (Decoder_skipByType P e d))
     (cursor_only (decoderReader_skipByType e r))"
proof (cases "0 < fixTypeSize e")
  case True
  have 1: "cursor_only (Decoder_skipByType P e d) =
      Decoder_reserve d (fixTypeSize e) \<bind> (\<lambda>(b, d'). Some ((), d'))"
    using True
    by (cases "Decoder_reserve d (fixTypeSize e)")
       (auto simp: Decoder_skipByType.simps Decoder_Skip_def cursor_only_def)
  have 2: "cursor_only (decoderReader_skipByType e r) =
      decoderReader_reserve r (fixTypeSize e) \<bind> (\<lambda>(b, r'). Some ((), r'))"
    using True
    by (cases "decoderReader_reserve r (fixTypeSize e)")
       (auto simp: decoderReader_skipByType.simps decoderReader_Skip_def cursor_only_def)
  show ?thesis
    unfolding 1 2 by (rule sim_read [OF assms(2)])
next
  case False
  with assms(1) have e: "e = TString" by simp
  have 1: "cursor_only (Decoder_skipByType P TString d) =
      Decoder_Uvarint d \<bind> (\<lambda>(a, d1).
        Decoder_reserve d1 (sint (fst a)) \<bind> (\<lambda>(b, d2). Some ((), d2)))"
    by (auto simp: Decoder_skipByType.simps Decoder_Skip_def cursor_only_def Let_def
        split: bind_splits)
  have 2: "cursor_only (decoderReader_skipByType TString r) =
      decoderReader_Uvarint r \<bind> (\<lambda>(a, r1).
        decoderReader_reserve r1 (sint (fst a)) \<bind> (\<lambda>(b, r2). Some ((), r2)))"
    by (auto simp: decoderReader_skipByType.simps decoderReader_Skip_def cursor_only_def Let_def
        split: bind_splits)
  show ?thesis
    unfolding e 1 2
  proof (rule same_read_bind [OF sim_Uvarint [OF assms(2)]], goal_cases)
    case (1 a n)
    show ?case
      by (rule sim_read [OF sim_advance [OF assms(2)]])
  qed
qed

lemma sim_skip_tail:
  assumes "e = TBool \<or> e = TString \<or> skip_alike e" and "sim d r"
  shows "same_read d r (cursor_only (Decoder_skipByType P e d))
     (cursor_only (decoderReader_skipByType e r))"
proof (cases "e = TBool \<or> e = TString")
  case True
  then have "0 < fixTypeSize e \<or> e = TString" by auto
  then show ?thesis by (rule sim_skip_tail0 [OF _ assms(2)])
next
  case False
  with assms(1) have "skip_alike e" by simp
  from same_read_cong_result [OF sim_skip [OF this assms(2)], of "\<lambda>a. ()" P]
  show ?thesis
    by (simp add: cursor_only_def)
qed

lemma sim_sequence:
  assumes f: "\<And>x d r. sim d r \<Longrightarrow> same_read d r (f x d) (f' x r)"
    and g: "isSlice t \<or>
       (\<forall>d r. sim d r \<longrightarrow> same_read d r (cursor_only (g d)) (cursor_only (g' r)))"
    and s: "sim d r"
  shows "same_read d r (Decoder_sequence t e f g v d) (decoderReader_sequence t e f' g' v r)"
  unfolding Decoder_sequence_def decoderReader_sequence_def
proof (rule same_read_bind [OF sim_boolArray [OF s]], goal_cases)
  case (1 a n)
  have s1: "sim (Decoder_advance d n) (decoderReader_advance r n)"
    by (rule sim_advance [OF s])
  show ?case
  proof (cases "fst a < 0")
    case False
    then show ?thesis by (simp add: case_prod_unfold same_read_return)
  next
    case True
    have "same_read (Decoder_advance d n) (decoderReader_advance r n)
       (Decoder_Uvarint (Decoder_advance d n) \<bind> (\<lambda>(c, this2).
          let sz = sint (fst c) in
          (if isSlice t
           then (if sz < 0 then None else Some (VSlice (replicate (nat sz) (zero e))))
           else Some (snd a)) \<bind> (\<lambda>v2. elems v2 \<bind> (\<lambda>xs.
             elems_loop f g 0 (nat sz) xs this2 \<bind> (\<lambda>(ys, this3).
               Some ((None, with_elems v2 ys), this3))))))
       (decoderReader_Uvarint (decoderReader_advance r n) \<bind> (\<lambda>(c, this2).
          let sz = sint (fst c) in
          (if isSlice t
           then (if sz < 0 then None else Some (VSlice (replicate (nat sz) (zero e))))
           else Some (snd a)) \<bind> (\<lambda>v2. elems v2 \<bind> (\<lambda>xs.
             elems_loop f' g' 0 (nat sz) xs this2 \<bind> (\<lambda>(ys, this3).
               Some ((None, with_elems v2 ys), this3))))))"
    proof (rule same_read_bind [OF sim_Uvarint [OF s1]], goal_cases)
      case (1 c k)
      let ?sz = "sint (fst c)"
      let ?v2 = "if isSlice t
           then (if ?sz < 0 then None else Some (VSlice (replicate (nat ?sz) (zero e))))
           else Some (snd a)"
      have s2: "sim (Decoder_advance (Decoder_advance d n) k)
          (decoderReader_advance (decoderReader_advance r n) k)"
        by (rule sim_advance [OF s1])
      show ?case
      proof (cases ?v2)
        case None
        then show ?thesis by (simp add: Let_def same_read_None)
      next
        case (Some v2)
        show ?thesis
        proof (cases "elems v2")
          case None
          then show ?thesis using Some by (simp add: Let_def same_read_None)
        next
          case (Some xs)
          have len: "nat ?sz \<le> length xs \<or>
              (\<forall>d r. sim d r \<longrightarrow> same_read d r (cursor_only (g d)) (cursor_only (g' r)))"
          proof (cases "isSlice t")
            case True
            with \<open>?v2 = Some v2\<close> have "v2 = VSlice (replicate (nat ?sz) (zero e))"
              by (auto split: if_splits)
            with Some show ?thesis by (auto simp: elems_def)
          next
            case False
            with g show ?thesis by simp
          qed
          have "same_read (Decoder_advance (Decoder_advance d n) k)
              (decoderReader_advance (decoderReader_advance r n) k)
              (elems_loop f g 0 (nat ?sz) xs (Decoder_advance (Decoder_advance d n) k) \<bind>
                 (\<lambda>(ys, this3). Some ((None, with_elems v2 ys), this3)))
              (elems_loop f' g' 0 (nat ?sz) xs (decoderReader_advance (decoderReader_advance r n) k) \<bind>
                 (\<lambda>(ys, this3). Some ((None, with_elems v2 ys), this3)))"
            by (rule sim_store [OF sim_elems_loop [OF f len s2]])
          then show ?thesis
            using Some \<open>?v2 = Some v2\<close>
            by (simp add: Let_def del: Decoder_advance_advance decoderReader_advance_advance)
        qed
      qed
    qed
    then show ?thesis
      using True by (simp add: case_prod_unfold)
  qed
qed

lemma sim_value:
  "common t \<Longrightarrow> sim d r \<Longrightarrow>
   same_read d r (Decoder_value P t v d) (decoderReader_value t v r)"
proof (induction t arbitrary: v d r)
  case (TSlice e)
  from TSlice.prems(1) have e: "common e" by simp
  show ?case
    unfolding Decoder_value.simps decoderReader_value.simps
  proof (rule sim_sequence [OF TSlice.IH [OF e] disjI1 TSlice.prems(2)])
    show "isSlice (TSlice e)" by (simp add: isSlice_def)
  qed
next
  case (TArray n e)
  from TArray.prems(1) have c: "common e" and e: "e = TBool \<or> e = TString \<or> skip_alike e"
    by simp_all
  show ?case
    unfolding Decoder_value.simps decoderReader_value.simps
  proof (rule sim_sequence [OF _ disjI2 TArray.prems(2)])
    show "\<And>x d r. sim d r \<Longrightarrow>
        same_read d r (Decoder_value P e x d) (decoderReader_value e x r)"
      by (rule TArray.IH [OF c])
    show "\<forall>d r. sim d r \<longrightarrow>
        same_read d r (cursor_only (Decoder_skipByType P e d))
          (cursor_only (decoderReader_skipByType e r))"
      by (intro allI impI sim_skip_tail [OF e])
  qed
next
  case (TMap kt vt)
  from TMap.prems(1) have c: "common kt" "common vt" by simp_all
  show ?case
    unfolding Decoder_value.simps decoderReader_value.simps
  proof (rule same_read_bind [OF sim_Uvarint [OF TMap.prems(2)]], goal_cases)
    case (1 a n)
    have "same_read (Decoder_advance d n) (decoderReader_advance r n)
       (map_loop (Decoder_value P kt (zero kt)) (Decoder_value P vt (zero vt))
          (nat (sint (fst a))) [] (Decoder_advance d n) \<bind>
          (\<lambda>(m, this2). Some ((None, VMap m), this2)))
       (map_loop (decoderReader_value kt (zero kt)) (decoderReader_value vt (zero vt))
          (nat (sint (fst a))) [] (decoderReader_advance r n) \<bind>
          (\<lambda>(m, this2). Some ((None, VMap m), this2)))"
      by (rule sim_store [OF sim_map_loop [OF TMap.IH(1) [OF c(1)] TMap.IH(2) [OF c(2)]
              sim_advance [OF TMap.prems(2)]]])
    then show ?case
      by (simp add: case_prod_unfold Let_def)
  qed
next
  case (TStruct fs)
  from TStruct.prems(1) have c: "\<forall>p \<in> set fs. common (snd p)"
    by (auto simp: list_all_iff)
  have fields: "\<forall>p \<in> set fs. \<forall>x d r. sim d r \<longrightarrow>
      same_read d r (Decoder_value P (snd p) x d) (decoderReader_value (snd p) x r)"
  proof (intro ballI allI impI)
    fix p x d r
    assume p: "p \<in> set fs" and s: "sim d r"
    obtain valid ft where pp: "p = (valid, ft)" by (cases p)
    from c p pp have "common ft" by auto
    from TStruct.IH [of p ft, OF p _ this s] pp
    show "same_read d r (Decoder_value P (snd p) x d) (decoderReader_value (snd p) x r)"
      by simp
  qed
  show ?case
  proof (cases v)
    case (VStruct xs)
    have "same_read d r
       (struct_loop (map (\<lambda>(valid, ft). (valid, Decoder_value P ft)) fs) 0 xs d \<bind>
          (\<lambda>(ys, this'). Some ((None, VStruct ys), this')))
       (struct_loop (map (\<lambda>(valid, ft). (valid, decoderReader_value ft)) fs) 0 xs r \<bind>
          (\<lambda>(ys, this'). Some ((None, VStruct ys), this')))"
      by (rule sim_store [OF sim_struct_loop [OF fields TStruct.prems(2)]])
    then show ?thesis
      by (simp add: VStruct)
  qed (simp_all add: same_read_None)
qed (auto intro: sim_value_fixed sim_value_String
      simp del: Decoder_value.simps decoderReader_value.simps)

lemma sim_New: "sim (NewDecoderEndian bs E) (NewDecoderReader bs E)"
  by (simp add: sim_def NewDecoderEndian_def NewDecoderReader_def Decoder_rest_def)

text \<open>
  C2, as amended. A \<open>Decoder\<close> and a \<open>decoderReader\<close> made over the same bytes with the
  same byte order have the same bytes to read (\<open>sim\<close>). For two such decoders and every
  common shape (built from the fixed-size scalar kinds, text, slices, mappings, structs
  and arrays, the elements of an array being bool, text or of a shape that both decoders
  skip alike; not \<open>int\<close> and \<open>uint\<close>, not pointers), \<open>value\<close> of the one and \<open>value\<close> of the
  other both panic, or both return the same decoded content and the same error after
  consuming the same number of bytes (\<open>same_read\<close>).
\<close>

theorem value_backends_agree:
  "sim (NewDecoderEndian bs E) (NewDecoderReader bs E) \<and>
   (common t \<and> sim d r \<longrightarrow>
      same_read d r (Decoder_value P t v d) (decoderReader_value t v r))"
  using sim_New [of bs E] sim_value [of t d r P v] by blast

theorem value_backends_agree_witness:
  "common TUint64 \<and> common (TSlice TUint8) \<and>
   sim (NewDecoderEndian [1, 2, 3] LittleEndian) (NewDecoderReader [1, 2, 3] LittleEndian) \<and>
   Decoder_value example_pkg TUint64 (VUint64 0) (NewDecoderEndian [1, 2, 3] LittleEndian) = None \<and>
   decoderReader_value TUint64 (VUint64 0) (NewDecoderReader [1, 2, 3] LittleEndian) = None \<and>
   Decoder_value example_pkg (TSlice TUint8) (VSlice []) (NewDecoderEndian [1, 2, 3] LittleEndian) =
     Some ((None, VSlice [VUint8 2]),
       \<lparr>buff = [1, 2, 3], pos = 2, endian = LittleEndian, reader = None\<rparr>) \<and>
   decoderReader_value (TSlice TUint8) (VSlice []) (NewDecoderReader [1, 2, 3] LittleEndian) =
     Some ((None, VSlice [VUint8 2]), NewDecoderReader [3] LittleEndian)"
proof -
  let ?D = "NewDecoderEndian [1, 2, 3] LittleEndian"
  let ?R = "NewDecoderReader [1, 2, 3] LittleEndian"
  let ?D' = "\<lparr>buff = [1, 2, 3], pos = 2, endian = LittleEndian, reader = None\<rparr>"
  have s: "sim ?D ?R"
    using value_backends_agree [of "[1, 2, 3]" LittleEndian] by blast
  have rD: "Decoder_rest ?D = [1, 2, 3]"
    by (simp add: Decoder_rest_def NewDecoderEndian_def)
  have 1: "Decoder_value example_pkg TUint64 (VUint64 0) ?D = None"
    by (simp add: Decoder_Uint64_def Decoder_reserve_eq rD)
  have "same_read ?D ?R (Decoder_value example_pkg TUint64 (VUint64 0) ?D)
      (decoderReader_value TUint64 (VUint64 0) ?R)"
    using value_backends_agree [of _ _ TUint64 ?D ?R example_pkg "VUint64 0"] s by simp
  then have 2: "decoderReader_value TUint64 (VUint64 0) ?R = None"
    unfolding 1 by (simp add: same_read_def)
  have uD: "Decoder_Uvarint ?D = Some ((1, 1), Decoder_advance ?D 1)"
    using Decoder_Uvarint_small [OF rD] by simp
  have lD: "elems_loop (Decoder_value example_pkg TUint8) (Decoder_skipByType example_pkg TUint8)
      0 (Suc 0) [VUint8 0] (Decoder_advance ?D (Suc 0)) = Some ([VUint8 2], Decoder_advance ?D 2)"
    by (simp add: elems_loop.simps Decoder_Uint8_eq rD numeral_2_eq_2)
  have 3: "Decoder_value example_pkg (TSlice TUint8) (VSlice []) ?D =
      Some ((None, VSlice [VUint8 2]), Decoder_advance ?D 2)"
    by (simp add: Decoder_sequence_def Decoder_boolArray_def isBoolSeq_def isSlice_def uD
        elems_def with_elems_def lD)
  have "same_read ?D ?R (Decoder_value example_pkg (TSlice TUint8) (VSlice []) ?D)
      (decoderReader_value (TSlice TUint8) (VSlice []) ?R)"
    using value_backends_agree [of _ _ "TSlice TUint8" ?D ?R example_pkg "VSlice []"] s by simp
  then have 4: "decoderReader_value (TSlice TUint8) (VSlice []) ?R =
      Some ((None, VSlice [VUint8 2]), decoderReader_advance ?R 2)"
    unfolding 3 by (rule same_read_SomeD) (simp add: rD)
  have 5: "Decoder_advance ?D 2 = ?D'" "decoderReader_advance ?R 2 = NewDecoderReader [3] LittleEndian"
    by (simp_all add: Decoder_advance_def decoderReader_advance_def NewDecoderEndian_def
        NewDecoderReader_def)
  from s 1 2 3 4 show ?thesis
    unfolding 5 by simp
qed

text \<open>
  C2 as stated fails for \<open>uint\<close>: \<open>Decoder.value\<close> decodes the varint \<open>05\<close>,
  \<open>decoderReader.value\<close> has no case for the kind, consumes nothing and returns the
  unsupported-type error.
\<close>

theorem uint_backends_differ:
  "Decoder_value example_pkg TUint (VUint 0) (NewDecoderEndian [5] LittleEndian) =
     Some ((None, VUint 5), \<lparr>buff = [5], pos = 1, endian = LittleEndian, reader = None\<rparr>) \<and>
   decoderReader_value TUint (VUint 0) (NewDecoderReader [5] LittleEndian) =
     Some ((Some UnsupportedType, VUint 0), NewDecoderReader [5] LittleEndian)"
proof -
  let ?D = "NewDecoderEndian [5] LittleEndian"
  have rD: "Decoder_rest ?D = [5]"
    by (simp add: Decoder_rest_def NewDecoderEndian_def)
  have uD: "Decoder_Uvarint ?D = Some ((5, 1), Decoder_advance ?D 1)"
    using Decoder_Uvarint_small [OF rD] by simp
  have 1: "Decoder_value example_pkg TUint (VUint 0) ?D = Some ((None, VUint 5), Decoder_advance ?D 1)"
    by (simp add: Decoder_Uint_def uD)
  have 2: "Decoder_advance ?D 1 = \<lparr>buff = [5], pos = 1, endian = LittleEndian, reader = None\<rparr>"
    by (simp add: Decoder_advance_def NewDecoderEndian_def)
  have 3: "decoderReader_value TUint (VUint 0) (NewDecoderReader [5] LittleEndian) =
     Some ((Some UnsupportedType, VUint 0), NewDecoderReader [5] LittleEndian)"
    by (simp add: value_default_def decoderReader_newPtr_def)
  from 1 3 show ?thesis
    unfolding 2 by simp
qed

end
